theory Spec2Isabelle
  imports Main "HOL-Library.Multiset"
begin

section \<open>The line segmenter: ProcessLinesFromReader\<close>

text \<open>
  A Go string is a sequence of bytes, and so is an Isabelle \<open>string\<close> (a list of 8-bit
  characters). The delimiter of the segmenter is the newline byte.
\<close>

definition newline :: char where
  "newline = CHR 0x0A"

text \<open>
  An \<open>io.Reader\<close> hands out bytes until it reports \<open>io.EOF\<close> or some other error; after
  an error it may or may not hand out more. The model is the sequence of bytes up to the
  first error, that error, and what the reader would still deliver if it were read again
  (more bytes up to the next error, and so on). Only streams whose first error comes after
  finitely many bytes are covered.
\<close>

datatype read_error = EOF | ReadFailure string

type_synonym reader = "string \<times> read_error \<times> (string \<times> read_error) list"

text \<open>
  \<open>br.ReadString(delim)\<close> of the buffered reader is a library call. Its contract: it
  reads until the first occurrence of \<open>delim\<close> and returns the data up to and including
  the delimiter with a nil error; if the reader reports an error (end of file or a read
  failure) before a delimiter is found, it returns the data read so far together with
  that error. It returns a non-nil error exactly when the returned data does not end in
  \<open>delim\<close>. The result is the pair \<open>(line, err)\<close>, \<open>None\<close> being Go's nil error, and
  the reader that is left; after an error a later call would read on from the underlying
  reader.
\<close>

fun ReadString :: "char \<Rightarrow> reader \<Rightarrow> (string \<times> read_error option) \<times> reader" where
  "ReadString delim (bs, e, later) =
     (if delim \<in> set bs
      then ((takeWhile (\<lambda>b. b \<noteq> delim) bs @ [delim], None),
            (tl (dropWhile (\<lambda>b. b \<noteq> delim) bs), e, later))
      else ((bs, Some e),
            (case later of [] \<Rightarrow> ([], e, []) | (bs', e') # later' \<Rightarrow> (bs', e', later'))))"

text \<open>
  The loop of \<open>ProcessLinesFromReader\<close>:
  \<^verbatim>\<open>for line, err := br.ReadString('\n'); err == nil; line, err = br.ReadString('\n') {
      processFunc(line[:len(line)-1]) // Trim last newline
  }\<close>
  The callback acts on the caller's state \<open>'s\<close>; the function itself returns nothing, so
  the state the callbacks leave behind is all a caller can observe. With a nil error the
  line ends in the delimiter, so the slice \<open>line[:len(line)-1]\<close> is in range.
\<close>

function ProcessLinesFromReader :: "reader \<Rightarrow> (string \<Rightarrow> 's \<Rightarrow> 's) \<Rightarrow> 's \<Rightarrow> 's" where
  "ProcessLinesFromReader br processFunc s =
     (case ReadString newline br of
        ((line, None), br') \<Rightarrow>
          ProcessLinesFromReader br' processFunc (processFunc (take (length line - 1) line) s)
      | ((line, Some err), br') \<Rightarrow> s)"
  by pat_completeness auto
termination
proof (relation "measure (\<lambda>(br, f, s). length (fst br))")
  show "wf (measure (\<lambda>(br, f, s). length (fst br)))" by simp
next
  fix br :: reader and processFunc :: "string \<Rightarrow> 's \<Rightarrow> 's" and s :: 's
    and x :: "string \<times> read_error option" and br' line e
  assume r: "(x, br') = ReadString newline br" and x: "(line, e) = x" and e: "e = None"
  obtain bs en later where br: "br = (bs, en, later)" by (cases br)
  from r x e br have mem: "newline \<in> set bs"
    by (auto split: if_splits)
  with r br have "fst br' = tl (dropWhile (\<lambda>b. b \<noteq> newline) bs)"
    by auto
  moreover have "length (tl (dropWhile (\<lambda>b. b \<noteq> newline) bs)) < length bs"
  proof -
    from mem have "dropWhile (\<lambda>b. b \<noteq> newline) bs \<noteq> []"
      by simp
    then have "length (tl (dropWhile (\<lambda>b. b \<noteq> newline) bs))
        < length (dropWhile (\<lambda>b. b \<noteq> newline) bs)"
      by (cases "dropWhile (\<lambda>b. b \<noteq> newline) bs") auto
    also have "\<dots> \<le> length bs" by (rule length_dropWhile_le)
    finally show ?thesis .
  qed
  ultimately show "((br', processFunc, processFunc (take (length line - 1) line) s), br, processFunc, s)
        \<in> measure (\<lambda>(br, f, s). length (fst br))"
    using br by simp
qed

declare ProcessLinesFromReader.simps [simp del]

section \<open>The fan-out/fan-in engine: GoReduceLinesFromReader and GoReduce\<close>

text \<open>
  The two engines start goroutines that communicate over two unbuffered channels and a
  \<open>sync.WaitGroup\<close>. They are modelled as a transition system: the state holds the
  program point of every goroutine and the shared objects, and a step is one goroutine
  executing up to its next synchronisation. A run is a schedule (the list of goroutines
  that step, in order) applied to the initial state.

  The reducer returns a Go \<open>interface{}\<close>: \<open>None\<close> is nil, \<open>Some v\<close> a non-nil value. It
  may also panic. It is a function of the item alone.
\<close>

datatype 'b outcome = Returns "'b option" | Panics

text \<open>
  The worker goroutine, the same in both engines up to the layout of the conditionals:
  \<^verbatim>\<open>go func() {
      defer wg.Done()
      for {
          in, ok := <-inChan
          if !ok { return }
          out := reduceFunc(in)
          if out != nil { outChan <- out }
      }
  }()\<close>
  \<open>Receiving\<close>: at \<open><-inChan\<close>. \<open>Reducing x\<close>: holds the item, about to call the reducer.
  \<open>Sending out\<close>: at \<open>outChan <- out\<close>. \<open>Finished\<close>: returned, the deferred
  \<open>wg.Done()\<close> has run. \<open>Panicked\<close>: left by a panic that nothing recovers; the deferred
  \<open>wg.Done()\<close> has run while the panic unwound the goroutine.
\<close>

datatype ('a, 'b) worker =
  Receiving | Reducing 'a | Sending "'b option" | Finished | Panicked

text \<open>
  The goroutine started by the engine. In \<open>GoReduce\<close>:
  \<^verbatim>\<open>for worker := 0; worker < numWorkers; worker++ { wg.Add(1); go func() {...}() }
  wg.Wait()
  close(outChan)\<close>
  In \<open>GoReduceLinesFromReader\<close> the lines
  \<^verbatim>\<open>ProcessLinesFromReader(r, func(in string) { inChan <- in })
  close(inChan)\<close>
  stand between the loop and \<open>wg.Wait()\<close>: that is \<open>Producing\<close>, which \<open>GoReduce\<close> never
  enters.
\<close>

datatype main = Spawning nat | Producing | Waiting | ClosingOut | Returned

text \<open>
  \<open>pending\<close>: the items the producer has still to send on \<open>inChan\<close>, in order.
  \<open>wg\<close>: the counter of the wait group. \<open>inClosed\<close>: \<open>close(inChan)\<close> has happened.
  \<open>outCloses\<close>: how many times \<open>close(outChan)\<close> has been executed.
  \<open>delivered\<close>: the values the consumer has received from \<open>outChan\<close>, in order of arrival.
  \<open>exited\<close>: the runtime has terminated the program.
\<close>

record ('a, 'b) engine =
  main :: main
  workers :: "('a, 'b) worker list"
  wg :: int
  pending :: "'a list"
  inClosed :: bool
  outCloses :: nat
  delivered :: "'b option list"
  exited :: bool

text \<open>
  The goroutines of a schedule: the engine's own goroutine, the caller of \<open>GoReduce\<close>
  (who closes \<open>inChan\<close>), the workers, and the runtime.
\<close>

datatype thread = Main | Caller | Worker nat | Runtime

text \<open>
  A panic that no goroutine recovers terminates the whole program. The deferred calls of
  the panicking goroutine run first, and the other goroutines go on running until the
  runtime has stopped the process: once a worker has panicked the runtime can step at any
  later moment, and after its step nothing steps.
\<close>

definition crashed :: "('a, 'b) engine \<Rightarrow> bool" where
  "crashed s = (Panicked \<in> set (workers s))"

definition runtime_step :: "('a, 'b) engine \<Rightarrow> ('a, 'b) engine option" where
  "runtime_step s = (if crashed s then Some (s\<lparr>exited := True\<rparr>) else None)"

text \<open>
  One step of worker \<open>i\<close>. \<open>offered\<close> says whether the producer is at a send on
  \<open>inChan\<close>; both channels are unbuffered, so a send and a receive happen together.
  \<^item> At the receive: a closed channel yields \<open>ok = false\<close>, the worker returns and the
    deferred \<open>wg.Done()\<close> runs; otherwise it takes the producer's next item if one is
    offered, and blocks if none is.
  \<^item> At the call: a nil result goes back to the receive, a non-nil one on to the send; a
    panic is not recovered, the deferred \<open>wg.Done()\<close> runs and the goroutine dies.
  \<^item> At the send: the value passes to the consumer (the step stands for the consumer's
    receive too); on a closed channel the send panics.
\<close>

definition worker_step ::
  "('a \<Rightarrow> 'b outcome) \<Rightarrow> bool \<Rightarrow> nat \<Rightarrow> ('a, 'b) engine \<Rightarrow> ('a, 'b) engine option" where
  "worker_step reduceFunc offered i s =
     (if length (workers s) \<le> i then None
      else case workers s ! i of
        Receiving \<Rightarrow>
          if inClosed s
          then Some (s\<lparr>workers := (workers s)[i := Finished], wg := wg s - 1\<rparr>)
          else (case pending s of
                  [] \<Rightarrow> None
                | x # rest \<Rightarrow>
                    if offered
                    then Some (s\<lparr>workers := (workers s)[i := Reducing x], pending := rest\<rparr>)
                    else None)
      | Reducing x \<Rightarrow>
          (case reduceFunc x of
             Returns out \<Rightarrow>
               Some (s\<lparr>workers := (workers s)[i := (if out \<noteq> None then Sending out else Receiving)]\<rparr>)
           | Panics \<Rightarrow>
               Some (s\<lparr>workers := (workers s)[i := Panicked], wg := wg s - 1\<rparr>))
      | Sending out \<Rightarrow>
          if outCloses s = 0
          then Some (s\<lparr>workers := (workers s)[i := Receiving], delivered := delivered s @ [out]\<rparr>)
          else Some (s\<lparr>workers := (workers s)[i := Panicked], wg := wg s - 1\<rparr>)
      | Finished \<Rightarrow> None
      | Panicked \<Rightarrow> None)"

text \<open>
  One iteration of the spawning loop (\<open>wg.Add(1)\<close> and the \<open>go\<close> statement), or the exit
  from the loop to \<open>next\<close> when \<open>worker < numWorkers\<close> fails.
\<close>

definition spawn_step :: "int \<Rightarrow> main \<Rightarrow> nat \<Rightarrow> ('a, 'b) engine \<Rightarrow> ('a, 'b) engine" where
  "spawn_step numWorkers next k s =
     (if int k < numWorkers
      then s\<lparr>wg := wg s + 1, workers := workers s @ [Receiving], main := Spawning (Suc k)\<rparr>
      else s\<lparr>main := next\<rparr>)"

text \<open>\<open>wg.Wait()\<close> returns once the counter is zero; \<open>close(outChan)\<close> follows.\<close>

definition wait_step :: "('a, 'b) engine \<Rightarrow> ('a, 'b) engine option" where
  "wait_step s = (if wg s = 0 then Some (s\<lparr>main := ClosingOut\<rparr>) else None)"

definition close_out_step :: "('a, 'b) engine \<Rightarrow> ('a, 'b) engine" where
  "close_out_step s = s\<lparr>outCloses := Suc (outCloses s), main := Returned\<rparr>"

text \<open>
  \<open>GoReduce\<close>: the caller owns \<open>inChan\<close>. It sends the items of \<open>pending\<close> in order and
  closes the channel after the last one, as the comment on the function asks
  (\<open>Caller\<close> is that close; a caller that never closes is a run without this step).
\<close>

definition GoReduce_step ::
  "int \<Rightarrow> ('a \<Rightarrow> 'b outcome) \<Rightarrow> thread \<Rightarrow> ('a, 'b) engine \<Rightarrow> ('a, 'b) engine option" where
  "GoReduce_step numWorkers reduceFunc t s =
     (if exited s then None
      else case t of
        Main \<Rightarrow>
          (case main s of
             Spawning k \<Rightarrow> Some (spawn_step numWorkers Waiting k s)
           | Producing \<Rightarrow> None
           | Waiting \<Rightarrow> wait_step s
           | ClosingOut \<Rightarrow> Some (close_out_step s)
           | Returned \<Rightarrow> None)
      | Caller \<Rightarrow>
          if pending s = [] \<and> \<not> inClosed s then Some (s\<lparr>inClosed := True\<rparr>) else None
      | Worker i \<Rightarrow> worker_step reduceFunc True i s
      | Runtime \<Rightarrow> runtime_step s)"

definition GoReduce_init :: "'a list \<Rightarrow> ('a, 'b) engine" where
  "GoReduce_init xs =
     \<lparr>main = Spawning 0, workers = [], wg = 0, pending = xs, inClosed = False,
      outCloses = 0, delivered = [], exited = False\<rparr>"

text \<open>
  \<open>GoReduceLinesFromReader\<close>: the engine's own goroutine is the producer. The callback
  given to \<open>ProcessLinesFromReader\<close> sends each line on \<open>inChan\<close>, so the lines are
  offered while the goroutine is \<open>Producing\<close>; when none is left it closes \<open>inChan\<close> and
  goes on to wait.
\<close>

definition GoReduceLinesFromReader_step ::
  "int \<Rightarrow> (string \<Rightarrow> 'b outcome) \<Rightarrow> thread \<Rightarrow> (string, 'b) engine \<Rightarrow> (string, 'b) engine option" where
  "GoReduceLinesFromReader_step numWorkers reduceFunc t s =
     (if exited s then None
      else case t of
        Main \<Rightarrow>
          (case main s of
             Spawning k \<Rightarrow> Some (spawn_step numWorkers Producing k s)
           | Producing \<Rightarrow>
               if pending s = [] then Some (s\<lparr>inClosed := True, main := Waiting\<rparr>) else None
           | Waiting \<Rightarrow> wait_step s
           | ClosingOut \<Rightarrow> Some (close_out_step s)
           | Returned \<Rightarrow> None)
      | Caller \<Rightarrow> None
      | Worker i \<Rightarrow> worker_step reduceFunc (main s = Producing) i s
      | Runtime \<Rightarrow> runtime_step s)"

definition GoReduceLinesFromReader_init :: "reader \<Rightarrow> (string, 'b) engine" where
  "GoReduceLinesFromReader_init r =
     \<lparr>main = Spawning 0, workers = [], wg = 0,
      pending = ProcessLinesFromReader r (\<lambda>line sent. sent @ [line]) [],
      inClosed = False, outCloses = 0, delivered = [], exited = False\<rparr>"

text \<open>A schedule applied to a state; \<open>None\<close> when it names a goroutine that cannot step.\<close>

fun run :: "(thread \<Rightarrow> 's \<Rightarrow> 's option) \<Rightarrow> thread list \<Rightarrow> 's \<Rightarrow> 's option" where
  "run step [] s = Some s"
| "run step (t # ts) s = (case step t s of None \<Rightarrow> None | Some s' \<Rightarrow> run step ts s')"

definition GoReduce ::
  "'a list \<Rightarrow> int \<Rightarrow> ('a \<Rightarrow> 'b outcome) \<Rightarrow> thread list \<Rightarrow> ('a, 'b) engine option" where
  "GoReduce xs numWorkers reduceFunc schedule =
     run (GoReduce_step numWorkers reduceFunc) schedule (GoReduce_init xs)"

definition GoReduceLinesFromReader ::
  "reader \<Rightarrow> int \<Rightarrow> (string \<Rightarrow> 'b outcome) \<Rightarrow> thread list \<Rightarrow> (string, 'b) engine option" where
  "GoReduceLinesFromReader r numWorkers reduceFunc schedule =
     run (GoReduceLinesFromReader_step numWorkers reduceFunc) schedule
       (GoReduceLinesFromReader_init r)"

section \<open>What the engine owes: results, running workers, the invariant\<close>

text \<open>
  The notions the statements about the engine use. \<open>result_of\<close> is what one call of
  the reducer contributes to the output stream, \<open>results\<close> the contributions of a list of
  items in order, \<open>accepted\<close> the items the workers have received so far. A worker is
  \<open>running\<close> until it has returned or panicked, and \<open>owes\<close> the output of the item it holds.
\<close>

fun result_of :: "'b outcome \<Rightarrow> 'b option list" where
  "result_of (Returns (Some v)) = [Some v]"
| "result_of (Returns None) = []"
| "result_of Panics = []"

definition results :: "('a \<Rightarrow> 'b outcome) \<Rightarrow> 'a list \<Rightarrow> 'b option list" where
  "results reduceFunc xs = concat (map (\<lambda>x. result_of (reduceFunc x)) xs)"

definition accepted :: "'a list \<Rightarrow> ('a, 'b) engine \<Rightarrow> 'a list" where
  "accepted xs s = take (length xs - length (pending s)) xs"

fun running :: "('a, 'b) worker \<Rightarrow> bool" where
  "running Finished = False"
| "running Panicked = False"
| "running _ = True"

fun owes :: "('a \<Rightarrow> 'b outcome) \<Rightarrow> ('a, 'b) worker \<Rightarrow> 'b option multiset" where
  "owes reduceFunc (Reducing x) = mset (result_of (reduceFunc x))"
| "owes reduceFunc (Sending out) = {#out#}"
| "owes reduceFunc _ = {#}"

definition counter_ok :: "('a, 'b) engine \<Rightarrow> bool" where
  "counter_ok s \<longleftrightarrow> wg s = int (size (filter_mset running (mset (workers s))))"

definition pool_ok :: "int \<Rightarrow> ('a, 'b) engine \<Rightarrow> bool" where
  "pool_ok numWorkers s \<longleftrightarrow>
     (case main s of
        Spawning k \<Rightarrow> length (workers s) = k \<and> (k = 0 \<or> int k \<le> numWorkers)
      | _ \<Rightarrow> int (length (workers s)) = max 0 numWorkers)"

definition closing_ok :: "('a, 'b) engine \<Rightarrow> bool" where
  "closing_ok s \<longleftrightarrow>
     (main s = ClosingOut \<or> main s = Returned \<longrightarrow> (\<forall>w \<in># mset (workers s). \<not> running w)) \<and>
     outCloses s = (if main s = Returned then 1 else 0)"

definition results_ok :: "('a \<Rightarrow> 'b outcome) \<Rightarrow> 'a list \<Rightarrow> ('a, 'b) engine \<Rightarrow> bool" where
  "results_ok reduceFunc xs s \<longleftrightarrow>
     (\<exists>ys. xs = ys @ pending s \<and>
        mset (delivered s) + (\<Sum>w \<in># mset (workers s). owes reduceFunc w) =
        mset (results reduceFunc ys))"

definition input_ok :: "('a, 'b) engine \<Rightarrow> bool" where
  "input_ok s \<longleftrightarrow> (inClosed s \<longrightarrow> pending s = []) \<and> (Finished \<in># mset (workers s) \<longrightarrow> inClosed s)"

definition no_nil :: "('a, 'b) engine \<Rightarrow> bool" where
  "no_nil s \<longleftrightarrow> None \<notin> set (delivered s) \<and> Sending None \<notin># mset (workers s)"

definition items_ok :: "'a list \<Rightarrow> ('a, 'b) engine \<Rightarrow> bool" where
  "items_ok xs s \<longleftrightarrow>
     set (pending s) \<subseteq> set xs \<and> (\<forall>x. Reducing x \<in># mset (workers s) \<longrightarrow> x \<in> set xs)"

definition exit_ok :: "('a, 'b) engine \<Rightarrow> bool" where
  "exit_ok s \<longleftrightarrow> (exited s \<longrightarrow> Panicked \<in># mset (workers s))"

definition engine_inv :: "int \<Rightarrow> ('a \<Rightarrow> 'b outcome) \<Rightarrow> 'a list \<Rightarrow> ('a, 'b) engine \<Rightarrow> bool" where
  "engine_inv numWorkers reduceFunc xs s \<longleftrightarrow>
     counter_ok s \<and> pool_ok numWorkers s \<and> closing_ok s \<and> results_ok reduceFunc xs s \<and>
     input_ok s \<and> no_nil s \<and> items_ok xs s \<and> exit_ok s"

text \<open>
  In \<open>GoReduceLinesFromReader\<close> the input channel is closed exactly when the engine's
  goroutine has left the producer.
\<close>

definition producer_ok :: "('a, 'b) engine \<Rightarrow> bool" where
  "producer_ok s \<longleftrightarrow>
     (inClosed s \<longleftrightarrow> main s = Waiting \<or> main s = ClosingOut \<or> main s = Returned)"

text \<open>The lines \<open>ProcessLinesFromReader\<close> hands to a callback that records them.\<close>

abbreviation lines_of :: "reader \<Rightarrow> string list" where
  "lines_of r \<equiv> ProcessLinesFromReader r (\<lambda>line sent. sent @ [line]) []"

text \<open>
  A bound on the number of steps a run of either engine can still take: every step of
  every goroutine lowers it.
\<close>

fun weight :: "('a, 'b) worker \<Rightarrow> nat" where
  "weight Receiving = 1"
| "weight (Reducing x) = 3"
| "weight (Sending out) = 2"
| "weight Finished = 0"
| "weight Panicked = 0"

fun main_weight :: "int \<Rightarrow> main \<Rightarrow> nat" where
  "main_weight numWorkers (Spawning k) = 4 + 2 * nat (numWorkers - int k)"
| "main_weight numWorkers Producing = 3"
| "main_weight numWorkers Waiting = 2"
| "main_weight numWorkers ClosingOut = 1"
| "main_weight numWorkers Returned = 0"

definition steps_left :: "int \<Rightarrow> ('a, 'b) engine \<Rightarrow> nat" where
  "steps_left numWorkers s =
     main_weight numWorkers (main s) + 3 * length (pending s) + (if inClosed s then 0 else 1) +
     (if exited s then 0 else 1) + (\<Sum>w \<in># mset (workers s). weight w)"

text \<open>With nothing to send, a worker is at its receive or has returned.\<close>

definition idle :: "('a, 'b) engine \<Rightarrow> bool" where
  "idle s \<longleftrightarrow> pending s = [] \<and> (\<forall>w \<in># mset (workers s). w = Receiving \<or> w = Finished)"

text \<open>
  Two reducers for concrete runs: the one of the scenario with items \<open>a\<close>, \<open>bb\<close>,
  \<open>ccc\<close> (the length of the item if it is above one, nil otherwise), and one that
  panics on every item.
\<close>

definition len_if_long :: "string \<Rightarrow> nat outcome" where
  "len_if_long x = Returns (if 1 < length x then Some (length x) else None)"

definition always_panics :: "'a \<Rightarrow> nat outcome" where
  "always_panics x = Panics"

section \<open>Package format: Node and Source\<close>

text \<open>
  \<open>format.go\<close> calls the parser, the printer and the import sorter of the standard
  library, and \<open>bytes.TrimSpace\<close>. They are not among the sources, so they are parameters
  of the model, collected in one record; what the theorems need of them is stated where
  it is needed. An error is its message, which is all \<open>parse\<close> looks at.

  Of a file the model keeps what \<open>hasUnsortedImports\<close> reads: the list of declarations,
  and of a general declaration its token and the position of its opening parenthesis
  (\<open>0\<close> is \<open>token.NoPos\<close>); everything else is an opaque \<open>'x\<close>.
\<close>

type_synonym error = string

datatype token = IMPORT | CONST | TYPE | VAR

datatype 'x Decl = GenDecl token nat 'x | FuncDecl 'x | BadDecl 'x

record 'x File =
  Decls :: "'x Decl list"
  Rest :: 'x

text \<open>
  The node given to \<open>Node\<close> is an \<open>interface{}\<close>: a pointer to a file, a pointer to a
  \<open>printer.CommentedNode\<close> (a node and its comments), or something else. Files live in a
  store, a list indexed by address, since \<open>ast.SortImports\<close> changes the file it is given in
  place; an address outside the store stands for the nil pointer. The printer sees a node
  with its pointers followed.
\<close>

datatype 'x node = FileNode nat | CommentedNode "'x node" 'x | OtherNode 'x

datatype 'x printable = PNil | PFile "'x File" | PCommented "'x printable" 'x | POther 'x

fun deref :: "'x File list \<Rightarrow> 'x node \<Rightarrow> 'x printable" where
  "deref store (FileNode a) = (if a < length store then PFile (store ! a) else PNil)"
| "deref store (CommentedNode n comments) = PCommented (deref store n) comments"
| "deref store (OtherNode x) = POther x"

text \<open>
  \<open>ParseFile src\<close> is \<open>parser.ParseFile(fset, filename, src, parserMode)\<close>;
  \<open>Fprint indent node\<close> is \<open>Fprint\<close> of \<open>config\<close> with its \<open>Indent\<close> set to \<open>indent\<close>,
  returning the bytes written or the error; \<open>SortImports file\<close> is the file
  \<open>ast.SortImports(fset, file)\<close> leaves in place of \<open>file\<close>.
\<close>

record 'x library =
  ParseFile :: "string \<Rightarrow> error + 'x File"
  Fprint :: "int \<Rightarrow> 'x printable \<Rightarrow> error + string"
  SortImports :: "'x File \<Rightarrow> 'x File"
  TrimSpace :: "string \<Rightarrow> string"

definition tab :: char where
  "tab = CHR 0x09"

definition space :: char where
  "space = CHR 0x20"

definition carriage_return :: char where
  "carriage_return = CHR 0x0D"

definition isSpace :: "char \<Rightarrow> bool" where
  "isSpace b \<longleftrightarrow> b = space \<or> b = tab \<or> b = newline \<or> b = carriage_return"

text \<open>\<open>strings.Contains(s, substr)\<close>.\<close>

fun Contains :: "string \<Rightarrow> string \<Rightarrow> bool" where
  "Contains [] substr = (substr = [])"
| "Contains (c # s) substr = (take (length substr) (c # s) = substr \<or> Contains s substr)"

definition expected_package :: string where
  "expected_package = ''expected '' @ [CHR 0x27] @ ''package'' @ [CHR 0x27]"

text \<open>
  The two closures \<open>parse\<close> returns. A slice out of range panics: \<open>None\<close>.
  \<^verbatim>\<open>src = src[indent+len("package p\n"):]
  return bytes.TrimSpace(src)\<close>
  and
  \<^verbatim>\<open>if indent < 0 { indent = 0 }
  src = src[2*indent+len("package p\n\nfunc _() {"):]
  src = src[:len(src)-(indent+len("\n}\n"))]
  return bytes.TrimSpace(src)\<close>
\<close>

definition adjust_decls :: "'x library \<Rightarrow> string \<Rightarrow> int \<Rightarrow> string option" where
  "adjust_decls lib src indent =
     (if 0 \<le> indent + 10 \<and> indent + 10 \<le> int (length src)
      then Some (TrimSpace lib (drop (nat (indent + 10)) src))
      else None)"

definition adjust_stmts :: "'x library \<Rightarrow> string \<Rightarrow> int \<Rightarrow> string option" where
  "adjust_stmts lib src indent =
     (let indent = (if indent < 0 then 0 else indent) in
      if 2 * indent + 21 \<le> int (length src)
      then (let src = drop (nat (2 * indent + 21)) src in
            if 0 \<le> int (length src) - (indent + 3)
            then Some (TrimSpace lib (take (nat (int (length src) - (indent + 3))) src))
            else None)
      else None)"

text \<open>
  \<open>parse\<close>: the source as a whole file, else as a declaration list behind
  \<open>package p;\<close>, else as a statement list inside \<open>package p; func _() {\<close> ... \<open>}\<close>.
  The result is the file, the closure that removes the wrapping again (\<open>None\<close> is Go's
  nil, for a whole file) and the correction of the indentation.
\<close>

definition parse ::
  "'x library \<Rightarrow> string \<Rightarrow> bool \<Rightarrow>
   error + ('x File \<times> (string \<Rightarrow> int \<Rightarrow> string option) option \<times> int)" where
  "parse lib src stdin =
     (case ParseFile lib src of
        Inr file \<Rightarrow> Inr (file, None, 0)
      | Inl err \<Rightarrow>
          if \<not> stdin \<or> \<not> Contains err expected_package then Inl err
          else (case ParseFile lib (''package p;'' @ src) of
                  Inr file \<Rightarrow> Inr (file, Some (adjust_decls lib), 0)
                | Inl err \<Rightarrow>
                    if \<not> Contains err ''expected declaration'' then Inl err
                    else (case ParseFile lib (''package p; func _() {'' @ src @ [newline, CHR ''}'']) of
                            Inr file \<Rightarrow> Inr (file, Some (adjust_stmts lib), - 1)
                          | Inl err \<Rightarrow> Inl err)))"

text \<open>
  The three loops of \<open>Source\<close> on a partial source file.
  \<^verbatim>\<open>i, j := 0, 0
  for j < len(src) && isSpace(src[j]) {
      if src[j] == '\n' { i = j + 1 }
      j++
  }\<close>
  \<open>leading_space\<close> runs on the bytes from \<open>j\<close> on and returns \<open>(i, j)\<close>.
\<close>

fun leading_space :: "string \<Rightarrow> nat \<Rightarrow> nat \<Rightarrow> nat \<times> nat" where
  "leading_space [] i j = (i, j)"
| "leading_space (b # bs) i j =
     (if isSpace b then leading_space bs (if b = newline then j + 1 else i) (j + 1) else (i, j))"

text \<open>
  \<^verbatim>\<open>for _, b := range src[i:j] {
      switch b {
      case ' ': hasSpace = true
      case '\t': indent++
      }
  }
  if indent == 0 && hasSpace { indent = 1 }\<close>
\<close>

definition count_indent :: "string \<Rightarrow> nat" where
  "count_indent bs =
     (let (indent, hasSpace) =
        fold (\<lambda>b (indent, hasSpace).
                if b = space then (indent, True)
                else if b = tab then (indent + 1, hasSpace)
                else (indent, hasSpace))
             bs (0, False)
      in if indent = 0 \<and> hasSpace then 1 else indent)"

text \<open>
  \<^verbatim>\<open>i = len(src)
  for i > 0 && isSpace(src[i-1]) { i-- }\<close>
\<close>

fun trailing_space :: "string \<Rightarrow> nat \<Rightarrow> nat" where
  "trailing_space src 0 = 0"
| "trailing_space src (Suc i) = (if isSpace (src ! i) then trailing_space src i else Suc i)"

text \<open>
  \<open>Source\<close>. \<open>None\<close> is a panic (of a closure of \<open>parse\<close>), \<open>Some (Inl err)\<close> the
  return of an error, \<open>Some (Inr res)\<close> the return of the formatted bytes.
\<close>

definition Source :: "'x library \<Rightarrow> string \<Rightarrow> (error + string) option" where
  "Source lib src =
     (case parse lib src True of
        Inl err \<Rightarrow> Some (Inl err)
      | Inr (file, adjust, adjustIndent) \<Rightarrow>
          (case adjust of
             None \<Rightarrow>
               (case Fprint lib 0 (PFile (SortImports lib file)) of
                  Inl err \<Rightarrow> Some (Inl err)
                | Inr buf \<Rightarrow> Some (Inr buf))
           | Some adjust \<Rightarrow>
               (let (i, j) = leading_space src 0 0;
                    res = take i src;
                    indent = count_indent (take (j - i) (drop i src));
                    res = res @ replicate indent tab
                in case Fprint lib (int indent + adjustIndent) (PFile file) of
                     Inl err \<Rightarrow> Some (Inl err)
                   | Inr buf \<Rightarrow>
                       (case adjust buf (int indent + adjustIndent) of
                          None \<Rightarrow> None
                        | Some body \<Rightarrow>
                            Some (Inr (res @ body @ drop (trailing_space src (length src)) src))))))"

text \<open>
  \<open>hasUnsortedImports\<close>: the loop over the declarations returns at the first one that is
  not an import, and takes every grouped import for unsorted.
\<close>

fun hasUnsortedImports_decls :: "'x Decl list \<Rightarrow> bool" where
  "hasUnsortedImports_decls [] = False"
| "hasUnsortedImports_decls (GenDecl tok lparen x # ds) =
     (if tok \<noteq> IMPORT then False
      else if lparen \<noteq> 0 then True
      else hasUnsortedImports_decls ds)"
| "hasUnsortedImports_decls (d # ds) = False"

definition hasUnsortedImports :: "'x File \<Rightarrow> bool" where
  "hasUnsortedImports file = hasUnsortedImports_decls (Decls file)"

text \<open>
  \<open>Node\<close> takes the store and the node and returns the store it leaves and what
  \<open>Fprint\<close> wrote to \<open>dst\<close> or the error. With a file whose imports may be unsorted it
  prints the file, parses the print into a new file, which is allocated at the end of the
  store, sorts the imports of that file in place, and prints a node built on it.
\<close>

definition file_of :: "'x File list \<Rightarrow> 'x node \<Rightarrow> (nat \<times> 'x option) option" where
  "file_of store node =
     (case node of
        FileNode a \<Rightarrow> if a < length store then Some (a, None) else None
      | CommentedNode (FileNode a) comments \<Rightarrow>
          if a < length store then Some (a, Some comments) else None
      | _ \<Rightarrow> None)"

definition Node :: "'x library \<Rightarrow> 'x File list \<Rightarrow> 'x node \<Rightarrow> 'x File list \<times> (error + string)" where
  "Node lib store node =
     (case file_of store node of
        Some (a, cnode) \<Rightarrow>
          if hasUnsortedImports (store ! a)
          then (case Fprint lib 0 (PFile (store ! a)) of
                  Inl err \<Rightarrow> (store, Inl err)
                | Inr buf \<Rightarrow>
                    (case ParseFile lib buf of
                       Inl err \<Rightarrow> (store, Inl (''format.Node internal error ('' @ err @ '')''))
                     | Inr file \<Rightarrow>
                         (let a' = length store;
                              store = store @ [file];
                              store = store[a' := SortImports lib (store ! a')];
                              node = (case cnode of
                                        None \<Rightarrow> FileNode a'
                                      | Some comments \<Rightarrow> CommentedNode (FileNode a') comments)
                          in (store, Fprint lib 0 (deref store node)))))
          else (store, Fprint lib 0 (deref store node))
      | None \<Rightarrow> (store, Fprint lib 0 (deref store node)))"

text \<open>
  A small library for concrete runs. Its parser accepts a package clause \<open>package p\<close>
  followed by at most one declaration on one line, its printer writes the package clause
  and the declaration, each behind \<open>indent\<close> tabs and with an empty line between them, as
  \<open>gofmt\<close> does for such a file; its import sorter knows the one grouped import the
  examples use; its \<open>TrimSpace\<close> trims the four space bytes of \<open>isSpace\<close>.
\<close>

definition ascii_trim :: "string \<Rightarrow> string" where
  "ascii_trim bs = dropWhile isSpace (rev (dropWhile isSpace (rev bs)))"

definition sample_file :: "string \<Rightarrow> string File" where
  "sample_file text =
     \<lparr>Decls = (if text = [] then []
               else [GenDecl (if take 6 text = ''import'' then IMPORT else VAR)
                             (if CHR ''('' \<in> set text then 8 else 0) text]),
      Rest = ''p''\<rparr>"

definition sample_ParseFile :: "string \<Rightarrow> error + string File" where
  "sample_ParseFile src =
     (if take 9 src = ''package p'' then Inr (sample_file (ascii_trim (drop 10 src)))
      else Inl (''1:1: '' @ expected_package))"

definition print_file :: "int \<Rightarrow> string File \<Rightarrow> string" where
  "print_file indent file =
     replicate (nat indent) tab @ ''package p'' @ [newline] @
     concat (map (\<lambda>d. case d of
                         GenDecl tok lparen text \<Rightarrow>
                           [newline] @ replicate (nat indent) tab @ text @ [newline]
                       | _ \<Rightarrow> [])
                 (Decls file))"

definition sample_Fprint :: "int \<Rightarrow> string printable \<Rightarrow> error + string" where
  "sample_Fprint indent node =
     (case node of
        PFile file \<Rightarrow> Inr (print_file indent file)
      | PCommented (PFile file) comments \<Rightarrow> Inr (print_file indent file)
      | _ \<Rightarrow> Inl ''unsupported node type'')"

definition sample_SortImports :: "string File \<Rightarrow> string File" where
  "sample_SortImports file =
     file\<lparr>Decls :=
       map (\<lambda>d. case d of
                  GenDecl IMPORT lparen text \<Rightarrow>
                    GenDecl IMPORT lparen
                      (if text = ''import (b; a)'' then ''import (a; b)'' else text)
                | _ \<Rightarrow> d)
           (Decls file)\<rparr>"

definition sample_library :: "string library" where
  "sample_library =
     \<lparr>ParseFile = sample_ParseFile, Fprint = sample_Fprint,
      SortImports = sample_SortImports, TrimSpace = ascii_trim\<rparr>"

section \<open>Properties of the segmenter\<close>

text \<open>
  One call of \<open>ReadString\<close> on a stream that starts with a terminated line, and on one
  without a delimiter; then one turn of the loop in each case.
\<close>

lemma takeWhile_upto_delim: "delim \<notin> set l \<Longrightarrow> takeWhile (\<lambda>b. b \<noteq> delim) (l @ delim # bs) = l"
  by (induction l) auto

lemma dropWhile_upto_delim: "delim \<notin> set l \<Longrightarrow> dropWhile (\<lambda>b. b \<noteq> delim) (l @ delim # bs) = delim # bs"
  by (induction l) auto

lemma ReadString_line:
  "delim \<notin> set l \<Longrightarrow> ReadString delim (l @ delim # bs, e, later) = ((l @ [delim], None), (bs, e, later))"
  by (simp add: takeWhile_upto_delim dropWhile_upto_delim)

lemma ReadString_no_delim:
  "delim \<notin> set bs \<Longrightarrow> fst (ReadString delim (bs, e, later)) = (bs, Some e)"
  by simp

lemma ProcessLinesFromReader_line:
  "newline \<notin> set l \<Longrightarrow>
   ProcessLinesFromReader (l @ newline # bs, e, later) processFunc s =
   ProcessLinesFromReader (bs, e, later) processFunc (processFunc l s)"
  by (subst ProcessLinesFromReader.simps) (simp add: ReadString_line del: ReadString.simps)

lemma ProcessLinesFromReader_rest:
  "newline \<notin> set bs \<Longrightarrow> ProcessLinesFromReader (bs, e, later) processFunc s = s"
  by (subst ProcessLinesFromReader.simps) (simp split: list.splits)

lemma ProcessLinesFromReader_lines:
  assumes "\<forall>l \<in> set ls. newline \<notin> set l" and "newline \<notin> set rest"
  shows "ProcessLinesFromReader (concat (map (\<lambda>l. l @ [newline]) ls) @ rest, e, later) processFunc s =
         fold processFunc ls s"
  using assms
proof (induction ls arbitrary: s)
  case Nil
  then show ?case by (simp add: ProcessLinesFromReader_rest)
next
  case (Cons l ls)
  then show ?case using ProcessLinesFromReader_line [of l "concat (map (\<lambda>l. l @ [newline]) ls) @ rest" e later processFunc s]
    by simp
qed

text \<open>
  Every sequence of bytes is, in exactly the shape the loop consumes it, a sequence of
  newline-terminated lines followed by a rest without a newline (empty when the stream
  ends in a newline).
\<close>

lemma every_stream_splits:
  "\<exists>ls rest. bs = concat (map (\<lambda>l. l @ [newline]) ls) @ rest \<and> (\<forall>l \<in> set ls. newline \<notin> set l) \<and> newline \<notin> set rest"
proof (induction "length bs" arbitrary: bs rule: less_induct)
  case less
  show ?case
  proof (cases "newline \<in> set bs")
    case False
    then show ?thesis by (intro exI[of _ "[]"] exI[of _ bs]) simp
  next
    case True
    then obtain l bs' where bs: "bs = l @ newline # bs'" and l: "newline \<notin> set l"
      by (meson split_list_first)
    then have "length bs' < length bs" by simp
    from less[OF this] obtain ls rest where
      "bs' = concat (map (\<lambda>l. l @ [newline]) ls) @ rest" "\<forall>l \<in> set ls. newline \<notin> set l" "newline \<notin> set rest"
      by blast
    then show ?thesis using bs l
      by (intro exI[of _ "l # ls"] exI[of _ rest]) simp
  qed
qed

lemma terminated_stream_splits:
  assumes "pre = [] \<or> last pre = newline"
  shows "\<exists>ls. pre = concat (map (\<lambda>l. l @ [newline]) ls) \<and> (\<forall>l \<in> set ls. newline \<notin> set l)"
proof -
  from every_stream_splits [of pre] obtain ls rest where
    pre: "pre = concat (map (\<lambda>l. l @ [newline]) ls) @ rest" and ls: "\<forall>l \<in> set ls. newline \<notin> set l"
    and rest: "newline \<notin> set rest" by blast
  have "rest = []"
  proof (rule ccontr)
    assume ne: "rest \<noteq> []"
    with pre have "last pre = last rest" by simp
    moreover from ne pre have "pre \<noteq> []" by simp
    ultimately have "last rest = newline" using assms by simp
    with ne rest show False using last_in_set by metis
  qed
  with pre ls show ?thesis by auto
qed

text \<open>
  Claim C5. For every byte stream, \<open>ProcessLinesFromReader\<close> invokes the callback exactly
  once per newline-terminated line, with the line's trailing newline stripped, in the
  order the lines occur in the stream: on the stream made of the lines \<open>ls\<close>, each
  followed by a newline, and an unterminated rest, the callbacks are those of
  \<open>fold processFunc ls\<close>, whatever the reader reports at the end.
\<close>

theorem ProcessLinesFromReader_once_per_line:
  assumes "\<forall>l \<in> set ls. newline \<notin> set l" and "newline \<notin> set rest"
  shows "ProcessLinesFromReader (concat (map (\<lambda>l. l @ [newline]) ls) @ rest, e, later) processFunc s =
         fold processFunc ls s"
  using assms by (rule ProcessLinesFromReader_lines)

theorem ProcessLinesFromReader_once_per_line_witness:
  "ProcessLinesFromReader ([CHR ''a'', CHR ''b'', newline, newline, CHR ''c'', newline, CHR ''d''], EOF, [])
     (\<lambda>l calls. calls @ [l]) [] = [''ab'', '''', ''c'']"
  using ProcessLinesFromReader_once_per_line [of "[''ab'', '''', ''c'']" "''d''" EOF "[]" "\<lambda>l calls. calls @ [l]" "[]"]
  by (simp add: newline_def)

text \<open>
  Claim C6. For every byte stream whose final line is not terminated by a newline,
  \<open>ProcessLinesFromReader\<close> does not deliver that final line: the callbacks are those of
  the newline-terminated prefix alone.
\<close>

theorem final_unterminated_line_dropped:
  assumes "rest \<noteq> []" and "newline \<notin> set rest" and "pre = [] \<or> last pre = newline"
  shows "ProcessLinesFromReader (pre @ rest, e, later) processFunc s =
         ProcessLinesFromReader (pre, e, later) processFunc s"
proof -
  from terminated_stream_splits [OF assms(3)] obtain ls where
    pre: "pre = concat (map (\<lambda>l. l @ [newline]) ls)" and ls: "\<forall>l \<in> set ls. newline \<notin> set l"
    by blast
  have "ProcessLinesFromReader (pre @ rest, e, later) processFunc s = fold processFunc ls s"
    unfolding pre using ls assms(2) by (rule ProcessLinesFromReader_lines)
  moreover have "ProcessLinesFromReader (pre, e, later) processFunc s = fold processFunc ls s"
    using ProcessLinesFromReader_lines [OF ls, of "[]" e later processFunc s] pre by simp
  ultimately show ?thesis by simp
qed

theorem final_unterminated_line_dropped_witness:
  "ProcessLinesFromReader ([CHR ''a'', newline, CHR ''b'', newline] @ ''tail'', EOF, []) (\<lambda>l calls. calls @ [l]) [] =
   ProcessLinesFromReader ([CHR ''a'', newline, CHR ''b'', newline], EOF, []) (\<lambda>l calls. calls @ [l]) []"
  using final_unterminated_line_dropped [of "''tail''" "[CHR ''a'', newline, CHR ''b'', newline]" EOF "[]" "\<lambda>l calls. calls @ [l]" "[]"]
  by (simp add: newline_def)

text \<open>
  Claim C7. \<open>ProcessLinesFromReader\<close> stops at end of stream or at the first read error
  and treats both alike: a reader that fails after the bytes \<open>bs\<close>, whatever it would
  deliver afterwards, leaves the caller with exactly what a reader that ends cleanly after
  \<open>bs\<close> leaves; the function returns no error or other signal in either case.
\<close>

theorem read_error_like_eof:
  "ProcessLinesFromReader (bs, ReadFailure msg, later) processFunc s = ProcessLinesFromReader (bs, EOF, []) processFunc s"
proof -
  from every_stream_splits [of bs] obtain ls rest where
    bs: "bs = concat (map (\<lambda>l. l @ [newline]) ls) @ rest" and ls: "\<forall>l \<in> set ls. newline \<notin> set l"
    and rest: "newline \<notin> set rest" by blast
  show ?thesis unfolding bs
    by (simp only: ProcessLinesFromReader_lines [OF ls rest])
qed

section \<open>The invariant of the engine\<close>

text \<open>
  A step of worker \<open>i\<close> replaces one element of the pool. Every quantity the invariant
  speaks of is a function of the multiset of worker states, so one rule lists the seven
  ways a worker can step together with the pool before and after.
\<close>

lemma mset_update_split:
  assumes "i < length ws"
  shows "\<exists>M. mset ws = add_mset (ws ! i) M \<and> mset (ws[i := w]) = add_mset w M"
proof -
  from assms have "ws ! i \<in># mset ws" by simp
  then have "mset ws = add_mset (ws ! i) (mset ws - {#ws ! i#})" by simp
  moreover from assms have "mset (ws[i := w]) = add_mset w (mset ws - {#ws ! i#})"
    by (rule mset_update)
  ultimately show ?thesis by blast
qed

lemma worker_step_cases [consumes 1, case_names closed item absent present panic deliver send_closed]:
  assumes "worker_step reduceFunc offered i s = Some s'"
  obtains
    M where "mset (workers s) = add_mset Receiving M" "inClosed s"
      "s' = s\<lparr>workers := (workers s)[i := Finished], wg := wg s - 1\<rparr>"
      "mset ((workers s)[i := Finished]) = add_mset Finished M"
  | M x rest where "mset (workers s) = add_mset Receiving M" "\<not> inClosed s" "pending s = x # rest" "offered"
      "s' = s\<lparr>workers := (workers s)[i := Reducing x], pending := rest\<rparr>"
      "mset ((workers s)[i := Reducing x]) = add_mset (Reducing x) M"
  | M x where "mset (workers s) = add_mset (Reducing x) M" "reduceFunc x = Returns None"
      "s' = s\<lparr>workers := (workers s)[i := Receiving]\<rparr>"
      "mset ((workers s)[i := Receiving]) = add_mset Receiving M"
  | M x v where "mset (workers s) = add_mset (Reducing x) M" "reduceFunc x = Returns (Some v)"
      "s' = s\<lparr>workers := (workers s)[i := Sending (Some v)]\<rparr>"
      "mset ((workers s)[i := Sending (Some v)]) = add_mset (Sending (Some v)) M"
  | M x where "mset (workers s) = add_mset (Reducing x) M" "reduceFunc x = Panics"
      "s' = s\<lparr>workers := (workers s)[i := Panicked], wg := wg s - 1\<rparr>"
      "mset ((workers s)[i := Panicked]) = add_mset Panicked M"
  | M out where "mset (workers s) = add_mset (Sending out) M" "outCloses s = 0"
      "s' = s\<lparr>workers := (workers s)[i := Receiving], delivered := delivered s @ [out]\<rparr>"
      "mset ((workers s)[i := Receiving]) = add_mset Receiving M"
  | M out where "mset (workers s) = add_mset (Sending out) M" "outCloses s \<noteq> 0"
      "s' = s\<lparr>workers := (workers s)[i := Panicked], wg := wg s - 1\<rparr>"
      "mset ((workers s)[i := Panicked]) = add_mset Panicked M"
proof -
  from assms have i: "i < length (workers s)"
    by (auto simp: worker_step_def split: if_splits)
  have upd: "\<exists>M. mset (workers s) = add_mset (workers s ! i) M \<and> mset ((workers s)[i := w]) = add_mset w M" for w
    using i by (rule mset_update_split)
  show thesis
  proof (cases "workers s ! i")
    case Receiving
    show ?thesis
    proof (cases "inClosed s")
      case True
      with assms i Receiving have "s' = s\<lparr>workers := (workers s)[i := Finished], wg := wg s - 1\<rparr>"
        by (simp add: worker_step_def)
      with upd [of Finished] Receiving True that(1) show ?thesis by auto
    next
      case False
      with assms i Receiving obtain x rest where "pending s = x # rest" "offered"
        "s' = s\<lparr>workers := (workers s)[i := Reducing x], pending := rest\<rparr>"
        by (auto simp: worker_step_def split: list.splits if_splits)
      with upd [of "Reducing x"] Receiving False that(2) show ?thesis by auto
    qed
  next
    case (Reducing x)
    show ?thesis
    proof (cases "reduceFunc x")
      case (Returns out)
      show ?thesis
      proof (cases out)
        case None
        with assms i Reducing Returns have "s' = s\<lparr>workers := (workers s)[i := Receiving]\<rparr>"
          by (simp add: worker_step_def)
        with upd [of Receiving] Reducing Returns None that(3) show ?thesis by auto
      next
        case (Some v)
        with assms i Reducing Returns have "s' = s\<lparr>workers := (workers s)[i := Sending (Some v)]\<rparr>"
          by (simp add: worker_step_def)
        with upd [of "Sending (Some v)"] Reducing Returns Some that(4) show ?thesis by auto
      qed
    next
      case Panics
      with assms i Reducing have "s' = s\<lparr>workers := (workers s)[i := Panicked], wg := wg s - 1\<rparr>"
        by (simp add: worker_step_def)
      with upd [of Panicked] Reducing Panics that(5) show ?thesis by auto
    qed
  next
    case (Sending out)
    show ?thesis
    proof (cases "outCloses s = 0")
      case True
      with assms i Sending have "s' = s\<lparr>workers := (workers s)[i := Receiving], delivered := delivered s @ [out]\<rparr>"
        by (simp add: worker_step_def)
      with upd [of Receiving] Sending True that(6) show ?thesis by auto
    next
      case False
      with assms i Sending have "s' = s\<lparr>workers := (workers s)[i := Panicked], wg := wg s - 1\<rparr>"
        by (simp add: worker_step_def)
      with upd [of Panicked] Sending False that(7) show ?thesis by auto
    qed
  next
    case Finished
    with assms i show ?thesis by (simp add: worker_step_def)
  next
    case Panicked
    with assms i show ?thesis by (simp add: worker_step_def)
  qed
qed

text \<open>Each part of the invariant survives a step of a worker.\<close>

lemma results_snoc: "results f (ys @ [x]) = results f ys @ result_of (f x)"
  by (simp add: results_def)

lemma worker_step_counter_ok:
  "counter_ok s \<Longrightarrow> worker_step reduceFunc offered i s = Some s' \<Longrightarrow> counter_ok s'"
  by (erule worker_step_cases) (simp_all add: counter_ok_def)

lemma worker_step_main: "worker_step reduceFunc offered i s = Some s' \<Longrightarrow> main s' = main s"
  by (erule worker_step_cases) simp_all

lemma worker_step_length:
  "worker_step reduceFunc offered i s = Some s' \<Longrightarrow> length (workers s') = length (workers s)"
  by (erule worker_step_cases) simp_all

lemma worker_step_pool_ok:
  "pool_ok numWorkers s \<Longrightarrow> worker_step reduceFunc offered i s = Some s' \<Longrightarrow> pool_ok numWorkers s'"
  using worker_step_main [of reduceFunc offered i s s'] worker_step_length [of reduceFunc offered i s s']
  by (simp add: pool_ok_def split: main.splits)

lemma worker_step_closing_ok:
  "closing_ok s \<Longrightarrow> worker_step reduceFunc offered i s = Some s' \<Longrightarrow> closing_ok s'"
  by (erule worker_step_cases) (auto simp: closing_ok_def)

lemma worker_step_input_ok:
  "input_ok s \<Longrightarrow> worker_step reduceFunc offered i s = Some s' \<Longrightarrow> input_ok s'"
  by (erule worker_step_cases) (auto simp: input_ok_def)

lemma worker_step_no_nil:
  "no_nil s \<Longrightarrow> worker_step reduceFunc offered i s = Some s' \<Longrightarrow> no_nil s'"
  by (erule worker_step_cases) (auto simp: no_nil_def)

lemma worker_step_results_ok:
  assumes "results_ok reduceFunc xs s" and "closing_ok s"
    and "worker_step reduceFunc offered i s = Some s'"
  shows "results_ok reduceFunc xs s'"
  using assms(3)
proof (cases rule: worker_step_cases)
  case (item M x rest)
  from assms(1) obtain ys where ys: "xs = ys @ pending s"
    "mset (delivered s) + (\<Sum>w \<in># mset (workers s). owes reduceFunc w) = mset (results reduceFunc ys)"
    unfolding results_ok_def by blast
  have "xs = (ys @ [x]) @ rest" using ys(1) item(3) by simp
  moreover have "mset (delivered s) + (\<Sum>w \<in># add_mset (Reducing x) M. owes reduceFunc w)
      = mset (results reduceFunc (ys @ [x]))"
    using ys(2) item(1) by (simp add: results_snoc)
  ultimately show ?thesis unfolding results_ok_def item(5) using item(6)
    by (intro exI [of _ "ys @ [x]"]) simp
next
  case (send_closed M out)
  from assms(2) send_closed(2) have "main s = Returned"
    unfolding closing_ok_def by (auto split: if_splits)
  with assms(2) send_closed(1) show ?thesis unfolding closing_ok_def by auto
qed (use assms(1) in \<open>auto simp: results_ok_def\<close>)

lemma worker_step_items_ok:
  "items_ok xs s \<Longrightarrow> worker_step reduceFunc offered i s = Some s' \<Longrightarrow> items_ok xs s'"
  by (erule worker_step_cases) (auto simp: items_ok_def)

lemma worker_step_exit_ok:
  "exit_ok s \<Longrightarrow> worker_step reduceFunc offered i s = Some s' \<Longrightarrow> exit_ok s'"
  by (erule worker_step_cases) (auto simp: exit_ok_def)

lemma worker_step_inv:
  assumes "engine_inv numWorkers reduceFunc xs s"
    and "worker_step reduceFunc offered i s = Some s'"
  shows "engine_inv numWorkers reduceFunc xs s'"
  using assms unfolding engine_inv_def
  by (blast intro: worker_step_counter_ok worker_step_pool_ok worker_step_closing_ok
      worker_step_input_ok worker_step_no_nil worker_step_results_ok worker_step_items_ok
      worker_step_exit_ok)

text \<open>The steps of the engine's own goroutine and of the caller.\<close>

lemma spawn_step_inv:
  assumes "engine_inv numWorkers reduceFunc xs s" and "main s = Spawning k"
    and "next = Waiting \<or> next = Producing"
  shows "engine_inv numWorkers reduceFunc xs (spawn_step numWorkers next k s)"
proof -
  from assms(1) have c: "counter_ok s" and p: "pool_ok numWorkers s" and cl: "closing_ok s"
    and r: "results_ok reduceFunc xs s" and i: "input_ok s" and n: "no_nil s"
    and it: "items_ok xs s" and ex: "exit_ok s"
    by (simp_all add: engine_inv_def)
  have "counter_ok (spawn_step numWorkers next k s)"
    using c by (simp add: counter_ok_def spawn_step_def)
  moreover have "pool_ok numWorkers (spawn_step numWorkers next k s)"
    using p assms(2,3) by (auto simp: pool_ok_def spawn_step_def)
  moreover have "closing_ok (spawn_step numWorkers next k s)"
    using cl assms(2,3) by (auto simp: closing_ok_def spawn_step_def)
  moreover have "results_ok reduceFunc xs (spawn_step numWorkers next k s)"
    using r by (simp add: results_ok_def spawn_step_def)
  moreover have "input_ok (spawn_step numWorkers next k s)"
    using i by (simp add: input_ok_def spawn_step_def)
  moreover have "no_nil (spawn_step numWorkers next k s)"
    using n by (simp add: no_nil_def spawn_step_def)
  moreover have "items_ok xs (spawn_step numWorkers next k s)"
    using it by (simp add: items_ok_def spawn_step_def)
  moreover have "exit_ok (spawn_step numWorkers next k s)"
    using ex by (simp add: exit_ok_def spawn_step_def)
  ultimately show ?thesis by (simp add: engine_inv_def)
qed

lemma counter_zero_all_stopped:
  assumes "counter_ok s" and "wg s = 0" and "w \<in># mset (workers s)"
  shows "\<not> running w"
proof
  assume "running w"
  with assms(3) have "w \<in># filter_mset running (mset (workers s))" by simp
  then have "filter_mset running (mset (workers s)) \<noteq> {#}" by auto
  with assms(1,2) show False by (simp add: counter_ok_def)
qed

lemma wait_step_inv:
  assumes "engine_inv numWorkers reduceFunc xs s" and "main s = Waiting"
    and "wait_step s = Some s'"
  shows "engine_inv numWorkers reduceFunc xs s'"
proof -
  from assms(3) have z: "wg s = 0" and s': "s' = s\<lparr>main := ClosingOut\<rparr>"
    by (auto simp: wait_step_def split: if_splits)
  from assms(1) have c: "counter_ok s" and p: "pool_ok numWorkers s" and cl: "closing_ok s"
    and r: "results_ok reduceFunc xs s" and i: "input_ok s" and n: "no_nil s"
    and it: "items_ok xs s" and ex: "exit_ok s"
    by (simp_all add: engine_inv_def)
  have fin: "\<not> running w" if "w \<in># mset (workers s)" for w
    using counter_zero_all_stopped [OF c z that] .
  have "counter_ok s'" using c by (simp add: counter_ok_def s')
  moreover have "pool_ok numWorkers s'" using p assms(2) by (simp add: pool_ok_def s')
  moreover have "closing_ok s'" using cl assms(2) fin by (simp add: closing_ok_def s')
  moreover have "results_ok reduceFunc xs s'" using r by (simp add: results_ok_def s')
  moreover have "input_ok s'" using i by (simp add: input_ok_def s')
  moreover have "no_nil s'" using n by (simp add: no_nil_def s')
  moreover have "items_ok xs s'" using it by (simp add: items_ok_def s')
  moreover have "exit_ok s'" using ex by (simp add: exit_ok_def s')
  ultimately show ?thesis by (simp add: engine_inv_def)
qed

lemma close_out_step_inv:
  assumes "engine_inv numWorkers reduceFunc xs s" and "main s = ClosingOut"
  shows "engine_inv numWorkers reduceFunc xs (close_out_step s)"
proof -
  from assms(1) have c: "counter_ok s" and p: "pool_ok numWorkers s" and cl: "closing_ok s"
    and r: "results_ok reduceFunc xs s" and i: "input_ok s" and n: "no_nil s"
    and it: "items_ok xs s" and ex: "exit_ok s"
    by (simp_all add: engine_inv_def)
  have "counter_ok (close_out_step s)" using c by (simp add: counter_ok_def close_out_step_def)
  moreover have "pool_ok numWorkers (close_out_step s)"
    using p assms(2) by (simp add: pool_ok_def close_out_step_def)
  moreover have "closing_ok (close_out_step s)"
    using cl assms(2) by (simp add: closing_ok_def close_out_step_def)
  moreover have "results_ok reduceFunc xs (close_out_step s)"
    using r by (simp add: results_ok_def close_out_step_def)
  moreover have "input_ok (close_out_step s)" using i by (simp add: input_ok_def close_out_step_def)
  moreover have "no_nil (close_out_step s)" using n by (simp add: no_nil_def close_out_step_def)
  moreover have "items_ok xs (close_out_step s)" using it by (simp add: items_ok_def close_out_step_def)
  moreover have "exit_ok (close_out_step s)" using ex by (simp add: exit_ok_def close_out_step_def)
  ultimately show ?thesis by (simp add: engine_inv_def)
qed

lemma close_in_inv:
  assumes "engine_inv numWorkers reduceFunc xs s" and "pending s = []"
    and "m = main s \<or> (main s = Producing \<and> m = Waiting)"
  shows "engine_inv numWorkers reduceFunc xs (s\<lparr>inClosed := True, main := m\<rparr>)"
proof -
  let ?s' = "s\<lparr>inClosed := True, main := m\<rparr>"
  from assms(1) have c: "counter_ok s" and p: "pool_ok numWorkers s" and cl: "closing_ok s"
    and r: "results_ok reduceFunc xs s" and i: "input_ok s" and n: "no_nil s"
    and it: "items_ok xs s" and ex: "exit_ok s"
    by (simp_all add: engine_inv_def)
  have "counter_ok ?s'" using c by (simp add: counter_ok_def)
  moreover have "pool_ok numWorkers ?s'" using p assms(3) by (auto simp: pool_ok_def split: main.splits)
  moreover have "closing_ok ?s'" using cl assms(3) by (auto simp: closing_ok_def)
  moreover have "results_ok reduceFunc xs ?s'" using r by (simp add: results_ok_def)
  moreover have "input_ok ?s'" using i assms(2) by (simp add: input_ok_def)
  moreover have "no_nil ?s'" using n by (simp add: no_nil_def)
  moreover have "items_ok xs ?s'" using it by (simp add: items_ok_def)
  moreover have "exit_ok ?s'" using ex by (simp add: exit_ok_def)
  ultimately show ?thesis by (simp add: engine_inv_def)
qed

lemma runtime_step_inv:
  assumes "engine_inv numWorkers reduceFunc xs s" and "runtime_step s = Some s'"
  shows "engine_inv numWorkers reduceFunc xs s'"
proof -
  from assms(2) have cr: "Panicked \<in># mset (workers s)" and s': "s' = s\<lparr>exited := True\<rparr>"
    by (auto simp: runtime_step_def crashed_def split: if_splits)
  from assms(1) have c: "counter_ok s" and p: "pool_ok numWorkers s" and cl: "closing_ok s"
    and r: "results_ok reduceFunc xs s" and i: "input_ok s" and n: "no_nil s"
    and it: "items_ok xs s"
    by (simp_all add: engine_inv_def)
  have "counter_ok s'" using c by (simp add: counter_ok_def s')
  moreover have "pool_ok numWorkers s'" using p by (simp add: pool_ok_def s' split: main.splits)
  moreover have "closing_ok s'" using cl by (simp add: closing_ok_def s')
  moreover have "results_ok reduceFunc xs s'" using r by (simp add: results_ok_def s')
  moreover have "input_ok s'" using i by (simp add: input_ok_def s')
  moreover have "no_nil s'" using n by (simp add: no_nil_def s')
  moreover have "items_ok xs s'" using it by (simp add: items_ok_def s')
  moreover have "exit_ok s'" using cr by (simp add: exit_ok_def s')
  ultimately show ?thesis by (simp add: engine_inv_def)
qed

lemma GoReduce_step_inv:
  assumes "engine_inv numWorkers reduceFunc xs s"
    and "GoReduce_step numWorkers reduceFunc t s = Some s'"
  shows "engine_inv numWorkers reduceFunc xs s'"
proof -
  from assms(2) have nc: "\<not> exited s" by (auto simp: GoReduce_step_def split: if_splits)
  show ?thesis
  proof (cases t)
    case Main
    show ?thesis
    proof (cases "main s")
      case (Spawning k)
      with assms(2) Main nc have "s' = spawn_step numWorkers Waiting k s"
        by (simp add: GoReduce_step_def)
      with spawn_step_inv [OF assms(1) Spawning] show ?thesis by simp
    next
      case Waiting
      with assms(2) Main nc have "wait_step s = Some s'" by (simp add: GoReduce_step_def)
      with wait_step_inv [OF assms(1) Waiting] show ?thesis by simp
    next
      case ClosingOut
      with assms(2) Main nc have "s' = close_out_step s" by (simp add: GoReduce_step_def)
      with close_out_step_inv [OF assms(1) ClosingOut] show ?thesis by simp
    qed (use assms(2) Main nc in \<open>simp_all add: GoReduce_step_def\<close>)
  next
    case Caller
    with assms(2) nc have p: "pending s = []" and s': "s' = s\<lparr>inClosed := True\<rparr>"
      by (auto simp: GoReduce_step_def split: if_splits)
    from close_in_inv [OF assms(1) p, of "main s"] show ?thesis by (simp add: s')
  next
    case (Worker i)
    with assms(2) nc have "worker_step reduceFunc True i s = Some s'"
      by (simp add: GoReduce_step_def)
    with assms(1) show ?thesis by (rule worker_step_inv)
  next
    case Runtime
    with assms(2) nc have "runtime_step s = Some s'" by (simp add: GoReduce_step_def)
    with assms(1) show ?thesis by (rule runtime_step_inv)
  qed
qed

lemma GoReduceLinesFromReader_step_inv:
  assumes "engine_inv numWorkers reduceFunc xs s"
    and "GoReduceLinesFromReader_step numWorkers reduceFunc t s = Some s'"
  shows "engine_inv numWorkers reduceFunc xs s'"
proof -
  from assms(2) have nc: "\<not> exited s"
    by (auto simp: GoReduceLinesFromReader_step_def split: if_splits)
  show ?thesis
  proof (cases t)
    case Main
    show ?thesis
    proof (cases "main s")
      case (Spawning k)
      with assms(2) Main nc have "s' = spawn_step numWorkers Producing k s"
        by (simp add: GoReduceLinesFromReader_step_def)
      with spawn_step_inv [OF assms(1) Spawning] show ?thesis by simp
    next
      case Producing
      with assms(2) Main nc have p: "pending s = []" and s': "s' = s\<lparr>inClosed := True, main := Waiting\<rparr>"
        by (auto simp: GoReduceLinesFromReader_step_def split: if_splits)
      from close_in_inv [OF assms(1) p, of Waiting] Producing show ?thesis by (simp add: s')
    next
      case Waiting
      with assms(2) Main nc have "wait_step s = Some s'"
        by (simp add: GoReduceLinesFromReader_step_def)
      with wait_step_inv [OF assms(1) Waiting] show ?thesis by simp
    next
      case ClosingOut
      with assms(2) Main nc have "s' = close_out_step s"
        by (simp add: GoReduceLinesFromReader_step_def)
      with close_out_step_inv [OF assms(1) ClosingOut] show ?thesis by simp
    next
      case Returned
      with assms(2) Main nc show ?thesis by (simp add: GoReduceLinesFromReader_step_def)
    qed
  next
    case Caller
    with assms(2) nc show ?thesis by (simp add: GoReduceLinesFromReader_step_def)
  next
    case (Worker i)
    with assms(2) nc have "worker_step reduceFunc (main s = Producing) i s = Some s'"
      by (simp add: GoReduceLinesFromReader_step_def)
    with assms(1) show ?thesis by (rule worker_step_inv)
  next
    case Runtime
    with assms(2) nc have "runtime_step s = Some s'"
      by (simp add: GoReduceLinesFromReader_step_def)
    with assms(1) show ?thesis by (rule runtime_step_inv)
  qed
qed

lemma run_invariant:
  assumes "\<And>t s s'. P s \<Longrightarrow> step t s = Some s' \<Longrightarrow> P s'"
  shows "P s \<Longrightarrow> run step ts s = Some s' \<Longrightarrow> P s'"
proof (induction ts arbitrary: s)
  case Nil
  then show ?case by simp
next
  case (Cons t ts)
  from Cons.prems(2) obtain s1 where s1: "step t s = Some s1" and r: "run step ts s1 = Some s'"
    by (auto split: option.splits)
  from assms [OF Cons.prems(1) s1] have "P s1" .
  from Cons.IH [OF this r] show ?case .
qed

lemma engine_inv_GoReduce_init: "engine_inv numWorkers reduceFunc xs (GoReduce_init xs)"
  by (simp add: engine_inv_def GoReduce_init_def results_def counter_ok_def pool_ok_def
      closing_ok_def results_ok_def input_ok_def no_nil_def items_ok_def exit_ok_def)

lemma engine_inv_GoReduceLinesFromReader_init:
  "engine_inv numWorkers reduceFunc (ProcessLinesFromReader r (\<lambda>line sent. sent @ [line]) [])
     (GoReduceLinesFromReader_init r)"
  by (simp add: engine_inv_def GoReduceLinesFromReader_init_def results_def counter_ok_def pool_ok_def
      closing_ok_def results_ok_def input_ok_def no_nil_def items_ok_def exit_ok_def)

lemma GoReduce_inv:
  "GoReduce xs numWorkers reduceFunc schedule = Some s \<Longrightarrow> engine_inv numWorkers reduceFunc xs s"
  unfolding GoReduce_def
  by (rule run_invariant [where P = "engine_inv numWorkers reduceFunc xs"
        and step = "GoReduce_step numWorkers reduceFunc"])
     (erule (1) GoReduce_step_inv, rule engine_inv_GoReduce_init, assumption)

lemma GoReduceLinesFromReader_inv:
  "GoReduceLinesFromReader r numWorkers reduceFunc schedule = Some s \<Longrightarrow>
   engine_inv numWorkers reduceFunc (ProcessLinesFromReader r (\<lambda>line sent. sent @ [line]) []) s"
  unfolding GoReduceLinesFromReader_def
  by (rule run_invariant [where P = "engine_inv numWorkers reduceFunc (ProcessLinesFromReader r (\<lambda>line sent. sent @ [line]) [])"
        and step = "GoReduceLinesFromReader_step numWorkers reduceFunc"])
     (erule (1) GoReduceLinesFromReader_step_inv, rule engine_inv_GoReduceLinesFromReader_init, assumption)

text \<open>What the invariant says once the output channel is closed.\<close>

lemma accepted_prefix: "xs = ys @ pending s \<Longrightarrow> accepted xs s = ys"
  by (simp add: accepted_def)

lemma results_ok_accepted:
  assumes "results_ok reduceFunc xs s"
  shows "mset (delivered s) + (\<Sum>w \<in># mset (workers s). owes reduceFunc w) =
         mset (results reduceFunc (accepted xs s))"
proof -
  from assms obtain ys where ys: "xs = ys @ pending s"
    "mset (delivered s) + (\<Sum>w \<in># mset (workers s). owes reduceFunc w) = mset (results reduceFunc ys)"
    unfolding results_ok_def by blast
  from ys(1) have "accepted xs s = ys" by (rule accepted_prefix)
  with ys(2) show ?thesis by simp
qed

lemma stopped_owe_nothing:
  assumes "\<forall>w \<in># M. \<not> running w"
  shows "(\<Sum>w \<in># M. owes reduceFunc w) = {#}"
  using assms
proof (induction M)
  case empty
  then show ?case by simp
next
  case (add w M)
  then have "\<not> running w" by simp
  then have "owes reduceFunc w = {#}" by (cases w) simp_all
  with add show ?case by simp
qed

lemma not_running_iff: "\<not> running w \<longleftrightarrow> w = Finished \<or> w = Panicked"
  by (cases w) simp_all

lemma engine_inv_closed:
  assumes "engine_inv numWorkers reduceFunc xs s"
  shows "outCloses s \<le> 1 \<and> (outCloses s = 1 \<longleftrightarrow> main s = Returned) \<and>
         (outCloses s = 1 \<longrightarrow>
            int (length (workers s)) = max 0 numWorkers \<and>
            (\<forall>w \<in> set (workers s). w = Finished \<or> w = Panicked) \<and> wg s = 0 \<and>
            mset (delivered s) = mset (results reduceFunc (accepted xs s)))"
proof -
  from assms have c: "counter_ok s" and p: "pool_ok numWorkers s" and cl: "closing_ok s"
    and r: "results_ok reduceFunc xs s"
    by (simp_all add: engine_inv_def)
  from cl have 1: "outCloses s \<le> 1" and 2: "outCloses s = 1 \<longleftrightarrow> main s = Returned"
    by (simp_all add: closing_ok_def)
  have 3: "int (length (workers s)) = max 0 numWorkers \<and>
            (\<forall>w \<in> set (workers s). w = Finished \<or> w = Panicked) \<and> wg s = 0 \<and>
            mset (delivered s) = mset (results reduceFunc (accepted xs s))" if "outCloses s = 1"
  proof -
    from that 2 have m: "main s = Returned" by simp
    with cl have fin: "\<forall>w \<in># mset (workers s). \<not> running w" by (simp add: closing_ok_def)
    from m p have "int (length (workers s)) = max 0 numWorkers" by (simp add: pool_ok_def)
    moreover from fin have "filter_mset running (mset (workers s)) = {#}" by auto
    with c have "wg s = 0" by (simp add: counter_ok_def)
    moreover from results_ok_accepted [OF r] stopped_owe_nothing [OF fin, of reduceFunc]
    have "mset (delivered s) = mset (results reduceFunc (accepted xs s))" by simp
    moreover from fin have "\<forall>w \<in> set (workers s). w = Finished \<or> w = Panicked"
      by (simp add: not_running_iff)
    ultimately show ?thesis by simp
  qed
  from 1 2 3 show ?thesis by blast
qed

text \<open>What reaches the consumer is a non-nil result of an accepted item.\<close>

lemma result_of_cases:
  "result_of c = (case c of Returns (Some v) \<Rightarrow> [Some v] | _ \<Rightarrow> [])"
  by (cases c rule: result_of.cases) simp_all

lemma set_results:
  "out \<in> set (results reduceFunc ys) \<longleftrightarrow> out \<noteq> None \<and> (\<exists>x \<in> set ys. reduceFunc x = Returns out)"
  by (induction ys) (auto simp: results_def result_of_cases split: outcome.splits option.splits)

lemma length_results:
  "length (results reduceFunc ys) =
   length (filter (\<lambda>x. reduceFunc x \<noteq> Returns None \<and> reduceFunc x \<noteq> Panics) ys)"
  by (induction ys) (auto simp: results_def result_of_cases split: outcome.splits option.splits)

lemma engine_inv_no_nil:
  assumes "engine_inv numWorkers reduceFunc xs s"
  shows "None \<notin> set (delivered s) \<and>
         (\<forall>out \<in> set (delivered s). \<exists>x \<in> set (accepted xs s). reduceFunc x = Returns out) \<and>
         length (delivered s) \<le>
           length (filter (\<lambda>x. reduceFunc x \<noteq> Returns None \<and> reduceFunc x \<noteq> Panics) (accepted xs s))"
proof -
  from assms have r: "results_ok reduceFunc xs s" and n: "no_nil s" by (simp_all add: engine_inv_def)
  from results_ok_accepted [OF r]
  have sub: "mset (delivered s) \<subseteq># mset (results reduceFunc (accepted xs s))"
    by (metis mset_subset_eq_add_left)
  from n have 1: "None \<notin> set (delivered s)" by (simp add: no_nil_def)
  from sub have "set (delivered s) \<subseteq> set (results reduceFunc (accepted xs s))"
    by (metis set_mset_mono set_mset_mset)
  then have 2: "\<forall>out \<in> set (delivered s). \<exists>x \<in> set (accepted xs s). reduceFunc x = Returns out"
    by (auto simp: set_results)
  from sub have "size (mset (delivered s)) \<le> size (mset (results reduceFunc (accepted xs s)))"
    by (rule size_mset_mono)
  then have 3: "length (delivered s) \<le>
      length (filter (\<lambda>x. reduceFunc x \<noteq> Returns None \<and> reduceFunc x \<noteq> Panics) (accepted xs s))"
    by (simp add: length_results)
  from 1 2 3 show ?thesis by blast
qed

text \<open>
  With a reducer that panics on no item no worker panics: a worker only reduces items of
  the input, and it never sends on a closed channel.
\<close>

lemma worker_step_no_crash:
  assumes inv: "engine_inv numWorkers reduceFunc xs s"
    and np: "\<forall>x \<in> set xs. reduceFunc x \<noteq> Panics" and nc: "\<not> crashed s"
    and step: "worker_step reduceFunc offered i s = Some s'"
  shows "\<not> crashed s'"
  using step
proof (cases rule: worker_step_cases)
  case (panic M x)
  from inv have "items_ok xs s" by (simp add: engine_inv_def)
  with panic(1) have "x \<in> set xs" by (simp add: items_ok_def)
  with np panic(2) show ?thesis by simp
next
  case (send_closed M out)
  from inv have cl: "closing_ok s" by (simp add: engine_inv_def)
  with send_closed(2) have "main s = Returned" by (auto simp: closing_ok_def split: if_splits)
  with cl send_closed(1) show ?thesis by (auto simp: closing_ok_def)
qed (use nc in \<open>auto simp: crashed_def simp flip: set_mset_mset\<close>)

lemma spawn_step_crashed [simp]: "crashed (spawn_step numWorkers next k s) = crashed s"
  by (simp add: spawn_step_def crashed_def)

lemma close_out_step_crashed [simp]: "crashed (close_out_step s) = crashed s"
  by (simp add: close_out_step_def crashed_def)

lemma wait_step_crashed: "wait_step s = Some s' \<Longrightarrow> crashed s' = crashed s"
  by (auto simp: wait_step_def crashed_def split: if_splits)

lemma GoReduce_step_no_crash:
  assumes "engine_inv numWorkers reduceFunc xs s"
    and "\<forall>x \<in> set xs. reduceFunc x \<noteq> Panics" and "\<not> crashed s"
    and "GoReduce_step numWorkers reduceFunc t s = Some s'"
  shows "\<not> crashed s'"
proof (cases t)
  case Main
  with assms(3,4) show ?thesis
    by (cases "main s") (auto simp: GoReduce_step_def wait_step_crashed split: if_splits)
next
  case Caller
  with assms(3,4) show ?thesis by (auto simp: GoReduce_step_def crashed_def split: if_splits)
next
  case (Worker i)
  with assms(4) have "worker_step reduceFunc True i s = Some s'"
    by (simp add: GoReduce_step_def split: if_splits)
  from worker_step_no_crash [OF assms(1-3) this] show ?thesis .
next
  case Runtime
  with assms(3,4) show ?thesis by (simp add: GoReduce_step_def runtime_step_def split: if_splits)
qed

lemma GoReduceLinesFromReader_step_no_crash:
  assumes "engine_inv numWorkers reduceFunc xs s"
    and "\<forall>x \<in> set xs. reduceFunc x \<noteq> Panics" and "\<not> crashed s"
    and "GoReduceLinesFromReader_step numWorkers reduceFunc t s = Some s'"
  shows "\<not> crashed s'"
proof (cases t)
  case Main
  with assms(3,4) show ?thesis
    by (cases "main s")
      (auto simp: GoReduceLinesFromReader_step_def wait_step_crashed split: if_splits,
        simp add: crashed_def)
next
  case Caller
  with assms(4) show ?thesis by (simp add: GoReduceLinesFromReader_step_def split: if_splits)
next
  case (Worker i)
  with assms(4) have "worker_step reduceFunc (main s = Producing) i s = Some s'"
    by (simp add: GoReduceLinesFromReader_step_def split: if_splits)
  from worker_step_no_crash [OF assms(1-3) this] show ?thesis .
next
  case Runtime
  with assms(3,4) show ?thesis
    by (simp add: GoReduceLinesFromReader_step_def runtime_step_def split: if_splits)
qed

lemma GoReduce_no_crash:
  assumes np: "\<forall>x \<in> set xs. reduceFunc x \<noteq> Panics"
    and r: "GoReduce xs numWorkers reduceFunc schedule = Some (s :: ('a, 'b) engine)"
  shows "\<not> crashed s"
proof -
  let ?P = "\<lambda>s :: ('a, 'b) engine. engine_inv numWorkers reduceFunc xs s \<and> \<not> crashed s"
  from r have r': "run (GoReduce_step numWorkers reduceFunc) schedule (GoReduce_init xs) = Some s"
    by (simp add: GoReduce_def)
  have i: "?P (GoReduce_init xs)"
    using engine_inv_GoReduce_init [of numWorkers reduceFunc xs]
    by (simp add: GoReduce_init_def crashed_def)
  have "?P s'" if "?P s" "GoReduce_step numWorkers reduceFunc t s = Some s'"
    for t and s s' :: "('a, 'b) engine"
    using that GoReduce_step_inv [of numWorkers reduceFunc xs s t s']
      GoReduce_step_no_crash [of numWorkers reduceFunc xs s t s'] np by blast
  from run_invariant [of ?P, OF this i r'] show ?thesis by simp
qed

lemma GoReduceLinesFromReader_no_crash:
  assumes np: "\<forall>x \<in> set (lines_of r). reduceFunc x \<noteq> Panics"
    and r: "GoReduceLinesFromReader r numWorkers reduceFunc schedule = Some (s :: (string, 'b) engine)"
  shows "\<not> crashed s"
proof -
  let ?P = "\<lambda>s :: (string, 'b) engine. engine_inv numWorkers reduceFunc (lines_of r) s \<and> \<not> crashed s"
  from r have r': "run (GoReduceLinesFromReader_step numWorkers reduceFunc) schedule
      (GoReduceLinesFromReader_init r) = Some s"
    by (simp add: GoReduceLinesFromReader_def)
  have i: "?P (GoReduceLinesFromReader_init r)"
    using engine_inv_GoReduceLinesFromReader_init [of numWorkers reduceFunc r]
    by (simp add: GoReduceLinesFromReader_init_def crashed_def)
  have "?P s'" if "?P s" "GoReduceLinesFromReader_step numWorkers reduceFunc t s = Some s'"
    for t and s s' :: "(string, 'b) engine"
    using that GoReduceLinesFromReader_step_inv [of numWorkers reduceFunc "lines_of r" s t s']
      GoReduceLinesFromReader_step_no_crash [of numWorkers reduceFunc "lines_of r" s t s'] np
    by blast
  from run_invariant [of ?P, OF this i r'] show ?thesis by simp
qed

lemma not_crashed_not_exited:
  "engine_inv numWorkers reduceFunc xs s \<Longrightarrow> \<not> crashed s \<Longrightarrow> \<not> exited s"
  by (auto simp: engine_inv_def exit_ok_def crashed_def)


text \<open>
  Every step of either engine lowers \<open>steps_left\<close>, and with a reducer that does not panic
  some goroutine can step until the output channel is closed.
\<close>

lemma worker_step_steps_left:
  "worker_step reduceFunc offered i s = Some s' \<Longrightarrow> steps_left numWorkers s' < steps_left numWorkers s"
  by (erule worker_step_cases) (simp_all add: steps_left_def)

lemma spawn_step_steps_left:
  assumes "main s = Spawning k" and "next = Waiting \<or> next = Producing"
  shows "steps_left numWorkers (spawn_step numWorkers next k s) < steps_left numWorkers s"
proof (cases "int k < numWorkers")
  case True
  then have "2 * nat (numWorkers - int (Suc k)) + 2 = 2 * nat (numWorkers - int k)" by simp
  with True assms show ?thesis by (simp add: spawn_step_def steps_left_def)
next
  case False
  with assms show ?thesis by (auto simp: spawn_step_def steps_left_def)
qed

lemma wait_step_steps_left:
  "main s = Waiting \<Longrightarrow> wait_step s = Some s' \<Longrightarrow> steps_left numWorkers s' < steps_left numWorkers s"
  by (auto simp: wait_step_def steps_left_def split: if_splits)

lemma close_out_step_steps_left:
  "main s = ClosingOut \<Longrightarrow> steps_left numWorkers (close_out_step s) < steps_left numWorkers s"
  by (simp add: close_out_step_def steps_left_def)

lemma runtime_step_steps_left:
  "\<not> exited s \<Longrightarrow> runtime_step s = Some s' \<Longrightarrow> steps_left numWorkers s' < steps_left numWorkers s"
  by (auto simp: runtime_step_def steps_left_def split: if_splits)

lemma GoReduce_step_steps_left:
  assumes "GoReduce_step numWorkers reduceFunc t s = Some s'"
  shows "steps_left numWorkers s' < steps_left numWorkers s"
proof -
  from assms have ne: "\<not> exited s" by (auto simp: GoReduce_step_def split: if_splits)
  show ?thesis
  proof (cases t)
    case Main
    show ?thesis
    proof (cases "main s")
      case (Spawning k)
      with assms Main ne have "s' = spawn_step numWorkers Waiting k s"
        by (simp add: GoReduce_step_def)
      with spawn_step_steps_left [OF Spawning, of Waiting numWorkers] show ?thesis by simp
    next
      case Waiting
      with assms Main ne have "wait_step s = Some s'" by (simp add: GoReduce_step_def)
      with Waiting show ?thesis by (rule wait_step_steps_left)
    next
      case ClosingOut
      with assms Main ne have "s' = close_out_step s" by (simp add: GoReduce_step_def)
      with close_out_step_steps_left [OF ClosingOut, of numWorkers] show ?thesis by simp
    qed (use assms Main ne in \<open>simp_all add: GoReduce_step_def\<close>)
  next
    case Caller
    with assms ne have "\<not> inClosed s" and "s' = s\<lparr>inClosed := True\<rparr>"
      by (auto simp: GoReduce_step_def split: if_splits)
    then show ?thesis by (simp add: steps_left_def)
  next
    case (Worker i)
    with assms ne have "worker_step reduceFunc True i s = Some s'"
      by (simp add: GoReduce_step_def)
    then show ?thesis by (rule worker_step_steps_left)
  next
    case Runtime
    with assms ne have "runtime_step s = Some s'" by (simp add: GoReduce_step_def)
    with ne show ?thesis by (rule runtime_step_steps_left)
  qed
qed

lemma GoReduceLinesFromReader_step_steps_left:
  assumes "GoReduceLinesFromReader_step numWorkers reduceFunc t s = Some s'"
  shows "steps_left numWorkers s' < steps_left numWorkers s"
proof -
  from assms have ne: "\<not> exited s"
    by (auto simp: GoReduceLinesFromReader_step_def split: if_splits)
  show ?thesis
  proof (cases t)
    case Main
    show ?thesis
    proof (cases "main s")
      case (Spawning k)
      with assms Main ne have "s' = spawn_step numWorkers Producing k s"
        by (simp add: GoReduceLinesFromReader_step_def)
      with spawn_step_steps_left [OF Spawning, of Producing numWorkers] show ?thesis by simp
    next
      case Producing
      with assms Main ne have "s' = s\<lparr>inClosed := True, main := Waiting\<rparr>"
        by (auto simp: GoReduceLinesFromReader_step_def split: if_splits)
      with Producing show ?thesis by (simp add: steps_left_def)
    next
      case Waiting
      with assms Main ne have "wait_step s = Some s'"
        by (simp add: GoReduceLinesFromReader_step_def)
      with Waiting show ?thesis by (rule wait_step_steps_left)
    next
      case ClosingOut
      with assms Main ne have "s' = close_out_step s"
        by (simp add: GoReduceLinesFromReader_step_def)
      with close_out_step_steps_left [OF ClosingOut, of numWorkers] show ?thesis by simp
    next
      case Returned
      with assms Main ne show ?thesis by (simp add: GoReduceLinesFromReader_step_def)
    qed
  next
    case Caller
    with assms ne show ?thesis by (simp add: GoReduceLinesFromReader_step_def)
  next
    case (Worker i)
    with assms ne have "worker_step reduceFunc (main s = Producing) i s = Some s'"
      by (simp add: GoReduceLinesFromReader_step_def)
    then show ?thesis by (rule worker_step_steps_left)
  next
    case Runtime
    with assms ne have "runtime_step s = Some s'"
      by (simp add: GoReduceLinesFromReader_step_def)
    with ne show ?thesis by (rule runtime_step_steps_left)
  qed
qed

lemma running_worker_steps:
  assumes "i < length (workers s)" and "running (workers s ! i)"
    and "inClosed s \<or> (offered \<and> pending s \<noteq> [])"
  shows "worker_step reduceFunc offered i s \<noteq> None"
proof (cases "workers s ! i")
  case Receiving
  with assms(1,3) show ?thesis
    by (cases "pending s") (auto simp: worker_step_def)
next
  case (Reducing x)
  with assms(1) show ?thesis by (simp add: worker_step_def split: outcome.splits)
next
  case (Sending out)
  with assms(1) show ?thesis by (simp add: worker_step_def)
qed (use assms(2) in simp_all)

lemma busy_worker_steps:
  assumes "i < length (workers s)" and "running (workers s ! i)" and "workers s ! i \<noteq> Receiving"
  shows "worker_step reduceFunc offered i s \<noteq> None"
proof (cases "workers s ! i")
  case (Reducing x)
  with assms(1) show ?thesis by (simp add: worker_step_def split: outcome.splits)
next
  case (Sending out)
  with assms(1) show ?thesis by (simp add: worker_step_def)
qed (use assms(2,3) in simp_all)

lemma some_worker_running:
  assumes "counter_ok s" and "wg s \<noteq> 0"
  shows "\<exists>i < length (workers s). running (workers s ! i)"
proof -
  from assms have "filter_mset running (mset (workers s)) \<noteq> {#}" by (auto simp: counter_ok_def)
  then obtain w where "w \<in> set (workers s)" "running w" by auto
  then show ?thesis by (auto simp: in_set_conv_nth)
qed

lemma GoReduce_progress:
  assumes inv: "engine_inv numWorkers reduceFunc xs s" and ne: "\<not> exited s"
    and open_: "outCloses s = 0" and np: "main s \<noteq> Producing"
  shows "\<exists>t s'. GoReduce_step numWorkers reduceFunc t s = Some s'"
proof -
  from inv have c: "counter_ok s" and cl: "closing_ok s" by (simp_all add: engine_inv_def)
  from cl open_ have nr: "main s \<noteq> Returned" by (auto simp: closing_ok_def split: if_splits)
  show ?thesis
  proof (cases "main s")
    case (Spawning k)
    with ne have "GoReduce_step numWorkers reduceFunc Main s = Some (spawn_step numWorkers Waiting k s)"
      by (simp add: GoReduce_step_def)
    then show ?thesis by blast
  next
    case Producing
    with np show ?thesis by simp
  next
    case Waiting
    show ?thesis
    proof (cases "wg s = 0")
      case True
      with ne Waiting have "GoReduce_step numWorkers reduceFunc Main s = Some (s\<lparr>main := ClosingOut\<rparr>)"
        by (simp add: GoReduce_step_def wait_step_def)
      then show ?thesis by blast
    next
      case False
      from some_worker_running [OF c False] obtain i where
        i: "i < length (workers s)" "running (workers s ! i)" by blast
      show ?thesis
      proof (cases "inClosed s \<or> pending s \<noteq> []")
        case True
        with running_worker_steps [OF i, of True reduceFunc] ne
        have "GoReduce_step numWorkers reduceFunc (Worker i) s \<noteq> None"
          by (simp add: GoReduce_step_def)
        then show ?thesis by blast
      next
        case False
        with ne have "GoReduce_step numWorkers reduceFunc Caller s \<noteq> None"
          by (simp add: GoReduce_step_def)
        then show ?thesis by blast
      qed
    qed
  next
    case ClosingOut
    with ne have "GoReduce_step numWorkers reduceFunc Main s = Some (close_out_step s)"
      by (simp add: GoReduce_step_def)
    then show ?thesis by blast
  next
    case Returned
    with nr show ?thesis by simp
  qed
qed

lemma GoReduceLinesFromReader_step_producer_ok:
  assumes "producer_ok s" and "GoReduceLinesFromReader_step numWorkers reduceFunc t s = Some s'"
  shows "producer_ok s'"
proof (cases t)
  case Main
  with assms show ?thesis
    by (cases "main s")
      (auto simp: GoReduceLinesFromReader_step_def spawn_step_def wait_step_def close_out_step_def
        producer_ok_def split: if_splits)
next
  case Caller
  with assms show ?thesis by (simp add: GoReduceLinesFromReader_step_def split: if_splits)
next
  case (Worker i)
  with assms(2) have "worker_step reduceFunc (main s = Producing) i s = Some s'"
    by (simp add: GoReduceLinesFromReader_step_def split: if_splits)
  then have "main s' = main s \<and> inClosed s' = inClosed s"
    by (cases rule: worker_step_cases) simp_all
  with assms(1) show ?thesis by (simp add: producer_ok_def)
next
  case Runtime
  with assms show ?thesis
    by (auto simp: GoReduceLinesFromReader_step_def runtime_step_def producer_ok_def split: if_splits)
qed

lemma GoReduceLinesFromReader_producer_ok:
  assumes "GoReduceLinesFromReader r numWorkers reduceFunc schedule = Some (s :: (string, 'b) engine)"
  shows "producer_ok s"
proof -
  from assms have r: "run (GoReduceLinesFromReader_step numWorkers reduceFunc) schedule
      (GoReduceLinesFromReader_init r) = Some s"
    by (simp add: GoReduceLinesFromReader_def)
  have i: "producer_ok (GoReduceLinesFromReader_init r :: (string, 'b) engine)"
    by (simp add: GoReduceLinesFromReader_init_def producer_ok_def)
  have "producer_ok s'"
    if "producer_ok s" "GoReduceLinesFromReader_step numWorkers reduceFunc t s = Some s'"
    for t and s s' :: "(string, 'b) engine"
    using that by (rule GoReduceLinesFromReader_step_producer_ok)
  from run_invariant [of producer_ok, OF this i r] show ?thesis .
qed

lemma GoReduceLinesFromReader_progress:
  assumes inv: "engine_inv numWorkers reduceFunc xs s" and po: "producer_ok s"
    and nc: "\<not> crashed s" and w: "1 \<le> numWorkers" and open_: "outCloses s = 0"
  shows "\<exists>t s'. GoReduceLinesFromReader_step numWorkers reduceFunc t s = Some s'"
proof -
  from inv have c: "counter_ok s" and cl: "closing_ok s" and p: "pool_ok numWorkers s"
    and io: "input_ok s"
    by (simp_all add: engine_inv_def)
  from inv nc have ne: "\<not> exited s" by (rule not_crashed_not_exited)
  from cl open_ have nr: "main s \<noteq> Returned" by (auto simp: closing_ok_def split: if_splits)
  show ?thesis
  proof (cases "main s")
    case (Spawning k)
    with ne have "GoReduceLinesFromReader_step numWorkers reduceFunc Main s =
        Some (spawn_step numWorkers Producing k s)"
      by (simp add: GoReduceLinesFromReader_step_def)
    then show ?thesis by blast
  next
    case Producing
    show ?thesis
    proof (cases "pending s")
      case Nil
      with ne Producing have "GoReduceLinesFromReader_step numWorkers reduceFunc Main s \<noteq> None"
        by (simp add: GoReduceLinesFromReader_step_def)
      then show ?thesis by blast
    next
      case (Cons x rest)
      from p Producing w have "int (length (workers s)) = numWorkers" by (simp add: pool_ok_def)
      with w have "0 < length (workers s)" by (cases "workers s") auto
      from po Producing have "\<not> inClosed s" by (simp add: producer_ok_def)
      with io have "Finished \<notin> set (workers s)" by (auto simp: input_ok_def)
      moreover from nc have "Panicked \<notin> set (workers s)" by (simp add: crashed_def)
      moreover from \<open>0 < length (workers s)\<close> have "workers s ! 0 \<in> set (workers s)"
        by (rule nth_mem)
      ultimately have "running (workers s ! 0)"
        by (cases "workers s ! 0") auto
      from running_worker_steps [OF \<open>0 < length (workers s)\<close> this, of "main s = Producing" reduceFunc]
        Producing Cons ne
      have "GoReduceLinesFromReader_step numWorkers reduceFunc (Worker 0) s \<noteq> None"
        by (simp add: GoReduceLinesFromReader_step_def)
      then show ?thesis by blast
    qed
  next
    case Waiting
    show ?thesis
    proof (cases "wg s = 0")
      case True
      with ne Waiting have "GoReduceLinesFromReader_step numWorkers reduceFunc Main s =
          Some (s\<lparr>main := ClosingOut\<rparr>)"
        by (simp add: GoReduceLinesFromReader_step_def wait_step_def)
      then show ?thesis by blast
    next
      case False
      from some_worker_running [OF c False] obtain i where
        i: "i < length (workers s)" "running (workers s ! i)" by blast
      from po Waiting have "inClosed s" by (simp add: producer_ok_def)
      with running_worker_steps [OF i, of "main s = Producing" reduceFunc] ne
      have "GoReduceLinesFromReader_step numWorkers reduceFunc (Worker i) s \<noteq> None"
        by (simp add: GoReduceLinesFromReader_step_def)
      then show ?thesis by blast
    qed
  next
    case ClosingOut
    with ne have "GoReduceLinesFromReader_step numWorkers reduceFunc Main s = Some (close_out_step s)"
      by (simp add: GoReduceLinesFromReader_step_def)
    then show ?thesis by blast
  next
    case Returned
    with nr show ?thesis by simp
  qed
qed

text \<open>\<open>GoReduce\<close> never enters the producer, and on an empty input its workers stay idle.\<close>

lemma GoReduce_step_not_Producing:
  assumes "main s \<noteq> Producing" and "GoReduce_step numWorkers reduceFunc t s = Some s'"
  shows "main s' \<noteq> Producing"
proof (cases t)
  case Main
  with assms show ?thesis
    by (cases "main s")
      (auto simp: GoReduce_step_def spawn_step_def wait_step_def close_out_step_def split: if_splits)
next
  case Caller
  with assms show ?thesis by (auto simp: GoReduce_step_def split: if_splits)
next
  case (Worker i)
  with assms(2) have "worker_step reduceFunc True i s = Some s'"
    by (simp add: GoReduce_step_def split: if_splits)
  with assms(1) show ?thesis by (simp add: worker_step_main)
next
  case Runtime
  with assms show ?thesis by (auto simp: GoReduce_step_def runtime_step_def split: if_splits)
qed

lemma GoReduce_not_Producing:
  "GoReduce xs numWorkers reduceFunc schedule = Some s \<Longrightarrow> main s \<noteq> Producing"
proof -
  assume "GoReduce xs numWorkers reduceFunc schedule = Some s"
  then have r: "run (GoReduce_step numWorkers reduceFunc) schedule (GoReduce_init xs) = Some s"
    by (simp add: GoReduce_def)
  have i: "main (GoReduce_init xs :: ('a, 'b) engine) \<noteq> Producing" by (simp add: GoReduce_init_def)
  have "main s' \<noteq> Producing"
    if "main s \<noteq> Producing" "GoReduce_step numWorkers reduceFunc t s = Some s'"
    for t and s s' :: "('a, 'b) engine"
    using that by (rule GoReduce_step_not_Producing)
  from run_invariant [of "\<lambda>s. main s \<noteq> Producing", OF this i r] show ?thesis .
qed

lemma worker_step_idle:
  "idle s \<Longrightarrow> worker_step reduceFunc offered i s = Some s' \<Longrightarrow> idle s'"
  by (erule worker_step_cases) (auto simp: idle_def)

lemma GoReduce_step_idle:
  assumes "idle s" and "GoReduce_step numWorkers reduceFunc t s = Some s'"
  shows "idle s'"
proof (cases t)
  case Main
  with assms show ?thesis
    by (cases "main s")
      (auto simp: GoReduce_step_def spawn_step_def wait_step_def close_out_step_def idle_def
        split: if_splits)
next
  case Caller
  with assms show ?thesis by (auto simp: GoReduce_step_def idle_def split: if_splits)
next
  case (Worker i)
  with assms(2) have "worker_step reduceFunc True i s = Some s'"
    by (simp add: GoReduce_step_def split: if_splits)
  with assms(1) show ?thesis by (rule worker_step_idle)
next
  case Runtime
  with assms show ?thesis by (auto simp: GoReduce_step_def runtime_step_def idle_def split: if_splits)
qed

lemma GoReduce_empty_idle:
  "GoReduce [] numWorkers reduceFunc schedule = Some s \<Longrightarrow> idle s"
proof -
  assume "GoReduce [] numWorkers reduceFunc schedule = Some s"
  then have r: "run (GoReduce_step numWorkers reduceFunc) schedule (GoReduce_init []) = Some s"
    by (simp add: GoReduce_def)
  have i: "idle (GoReduce_init [] :: ('a, 'b) engine)" by (simp add: GoReduce_init_def idle_def)
  have "idle s'" if "idle s" "GoReduce_step numWorkers reduceFunc t s = Some s'"
    for t and s s' :: "('a, 'b) engine"
    using that by (rule GoReduce_step_idle)
  from run_invariant [of idle, OF this i r] show ?thesis .
qed

lemma idle_no_output:
  assumes "idle s" and "results_ok reduceFunc [] s"
  shows "delivered s = []"
proof -
  from assms(2) have "mset (delivered s) + (\<Sum>w \<in># mset (workers s). owes reduceFunc w) = {#}"
    by (auto simp: results_ok_def results_def)
  then show ?thesis by simp
qed

lemma idle_not_crashed: "idle s \<Longrightarrow> \<not> crashed s"
  by (auto simp: idle_def crashed_def)

text \<open>The definitions a concrete run unfolds.\<close>

lemmas engine_simps = GoReduce_def GoReduce_step_def GoReduceLinesFromReader_def
  GoReduceLinesFromReader_step_def worker_step_def spawn_step_def wait_step_def
  close_out_step_def runtime_step_def crashed_def GoReduce_init_def
  GoReduceLinesFromReader_init_def

text \<open>
  Complete runs on the items \<open>a\<close>, \<open>bb\<close>, \<open>ccc\<close> with one and with two workers, a run
  fed from a reader, and a run on no items.
\<close>

lemma run_one_worker:
  "GoReduce [''a'', ''bb'', ''ccc''] 1 len_if_long
     [Main, Main, Worker 0, Worker 0, Worker 0, Worker 0, Worker 0, Worker 0, Worker 0, Worker 0,
      Caller, Worker 0, Main, Main] =
   Some \<lparr>main = Returned, workers = [Finished], wg = 0, pending = [],
         inClosed = True, outCloses = 1, delivered = [Some 2, Some 3], exited = False\<rparr>"
  by (simp add: engine_simps len_if_long_def)


lemma lines_of_sample:
  "lines_of ([CHR ''a'', newline, CHR ''b'', CHR ''b'', newline, CHR ''c''], EOF, []) = [''a'', ''bb'']"
  using ProcessLinesFromReader_lines [of "[''a'', ''bb'']" "''c''" EOF "[]" "\<lambda>line sent. sent @ [line]" "[]"]
  by (simp add: newline_def)

lemma run_from_reader:
  "GoReduceLinesFromReader ([CHR ''a'', newline, CHR ''b'', CHR ''b'', newline, CHR ''c''], EOF, []) 1
     len_if_long
     [Main, Main, Worker 0, Worker 0, Worker 0, Worker 0, Worker 0, Main, Worker 0, Main, Main] =
   Some \<lparr>main = Returned, workers = [Finished], wg = 0, pending = [],
         inClosed = True, outCloses = 1, delivered = [Some 2], exited = False\<rparr>"
  unfolding GoReduceLinesFromReader_def GoReduceLinesFromReader_init_def lines_of_sample
  by (simp add: engine_simps len_if_long_def)

lemma run_empty:
  "GoReduce ([] :: string list) 2 len_if_long [Caller, Main, Main, Worker 0, Main] =
   Some \<lparr>main = Waiting, workers = [Finished, Receiving], wg = 1, pending = [],
         inClosed = True, outCloses = 0, delivered = [], exited = False\<rparr>"
  by (simp add: engine_simps)

lemma run_open:
  "GoReduce [''a'', ''bb'', ''ccc''] 1 len_if_long [Main, Main, Worker 0] =
   Some \<lparr>main = Waiting, workers = [Reducing ''a''], wg = 1, pending = [''bb'', ''ccc''],
         inClosed = False, outCloses = 0, delivered = [], exited = False\<rparr>"
  by (simp add: engine_simps)

lemma run_from_reader_open:
  "GoReduceLinesFromReader ([CHR ''a'', newline, CHR ''b'', CHR ''b'', newline, CHR ''c''], EOF, []) 1
     len_if_long [Main, Main, Worker 0] =
   Some \<lparr>main = Producing, workers = [Reducing ''a''], wg = 1, pending = [''bb''],
         inClosed = False, outCloses = 0, delivered = [], exited = False\<rparr>"
  unfolding GoReduceLinesFromReader_def GoReduceLinesFromReader_init_def lines_of_sample
  by (simp add: engine_simps)

lemma lines_of_one: "lines_of ([CHR ''a'', newline], EOF, []) = [''a'']"
  using ProcessLinesFromReader_lines [of "[''a'']" "[]" EOF "[]" "\<lambda>line sent. sent @ [line]" "[]"]
  by (simp add: newline_def)




lemma no_worker_no_step: "workers s = [] \<Longrightarrow> worker_step reduceFunc offered i s = None"
  by (simp add: worker_step_def)



section \<open>Properties of the engine\<close>

text \<open>
  Claim C1, as amended. In every run of either engine the output channel is closed at
  most once, exactly once when the engine's goroutine has returned, and only after all
  \<open>numWorkers\<close> workers have terminated (the pool is complete, every worker has returned or
  has panicked, and the wait group is at zero) and every non-nil result of an item accepted
  by a worker has been delivered to the consumer. No run is infinite: every step lowers
  \<open>steps_left\<close>. With a reducer that panics on no item (and, for
  \<open>GoReduceLinesFromReader\<close>, at least one worker) some goroutine can step as long as the
  channel is not closed, so every run goes on to the one close. The goroutines that step
  include the consumer, who receives what a worker sends, and the caller of \<open>GoReduce\<close>,
  who closes the input channel after the last item.
\<close>

theorem output_closed_once_after_workers:
  "(GoReduce xs numWorkers reduceFunc schedule = Some s \<longrightarrow>
      outCloses s \<le> 1 \<and> (outCloses s = 1 \<longleftrightarrow> main s = Returned) \<and>
      (outCloses s = 1 \<longrightarrow>
         int (length (workers s)) = max 0 numWorkers \<and>
         (\<forall>w \<in> set (workers s). w = Finished \<or> w = Panicked) \<and> wg s = 0 \<and>
         mset (delivered s) = mset (results reduceFunc (accepted xs s))) \<and>
      (\<forall>t s1. GoReduce_step numWorkers reduceFunc t s = Some s1 \<longrightarrow>
         steps_left numWorkers s1 < steps_left numWorkers s) \<and>
      ((\<forall>x \<in> set xs. reduceFunc x \<noteq> Panics) \<and> outCloses s = 0 \<longrightarrow>
         (\<exists>t s1. GoReduce_step numWorkers reduceFunc t s = Some s1))) \<and>
   (GoReduceLinesFromReader r numWorkers reduceLine schedule' = Some s' \<longrightarrow>
      outCloses s' \<le> 1 \<and> (outCloses s' = 1 \<longleftrightarrow> main s' = Returned) \<and>
      (outCloses s' = 1 \<longrightarrow>
         int (length (workers s')) = max 0 numWorkers \<and>
         (\<forall>w \<in> set (workers s'). w = Finished \<or> w = Panicked) \<and> wg s' = 0 \<and>
         mset (delivered s') = mset (results reduceLine (accepted (lines_of r) s'))) \<and>
      (\<forall>t s1. GoReduceLinesFromReader_step numWorkers reduceLine t s' = Some s1 \<longrightarrow>
         steps_left numWorkers s1 < steps_left numWorkers s') \<and>
      (1 \<le> numWorkers \<and> (\<forall>x \<in> set (lines_of r). reduceLine x \<noteq> Panics) \<and> outCloses s' = 0 \<longrightarrow>
         (\<exists>t s1. GoReduceLinesFromReader_step numWorkers reduceLine t s' = Some s1)))"
proof -
  have a: "outCloses s \<le> 1 \<and> (outCloses s = 1 \<longleftrightarrow> main s = Returned) \<and>
      (outCloses s = 1 \<longrightarrow>
         int (length (workers s)) = max 0 numWorkers \<and>
         (\<forall>w \<in> set (workers s). w = Finished \<or> w = Panicked) \<and> wg s = 0 \<and>
         mset (delivered s) = mset (results reduceFunc (accepted xs s))) \<and>
      (\<forall>t s1. GoReduce_step numWorkers reduceFunc t s = Some s1 \<longrightarrow>
         steps_left numWorkers s1 < steps_left numWorkers s) \<and>
      ((\<forall>x \<in> set xs. reduceFunc x \<noteq> Panics) \<and> outCloses s = 0 \<longrightarrow>
         (\<exists>t s1. GoReduce_step numWorkers reduceFunc t s = Some s1))"
    if run: "GoReduce xs numWorkers reduceFunc schedule = Some s"
  proof -
    from run have inv: "engine_inv numWorkers reduceFunc xs s" by (rule GoReduce_inv)
    have "\<exists>t s1. GoReduce_step numWorkers reduceFunc t s = Some s1"
      if np: "\<forall>x \<in> set xs. reduceFunc x \<noteq> Panics" and op: "outCloses s = 0"
    proof -
      from np run have "\<not> crashed s" by (rule GoReduce_no_crash)
      with inv have "\<not> exited s" by (rule not_crashed_not_exited)
      from GoReduce_progress [OF inv this op GoReduce_not_Producing [OF run]] show ?thesis .
    qed
    with engine_inv_closed [OF inv] GoReduce_step_steps_left [of numWorkers reduceFunc _ s]
    show ?thesis by blast
  qed
  have b: "outCloses s' \<le> 1 \<and> (outCloses s' = 1 \<longleftrightarrow> main s' = Returned) \<and>
      (outCloses s' = 1 \<longrightarrow>
         int (length (workers s')) = max 0 numWorkers \<and>
         (\<forall>w \<in> set (workers s'). w = Finished \<or> w = Panicked) \<and> wg s' = 0 \<and>
         mset (delivered s') = mset (results reduceLine (accepted (lines_of r) s'))) \<and>
      (\<forall>t s1. GoReduceLinesFromReader_step numWorkers reduceLine t s' = Some s1 \<longrightarrow>
         steps_left numWorkers s1 < steps_left numWorkers s') \<and>
      (1 \<le> numWorkers \<and> (\<forall>x \<in> set (lines_of r). reduceLine x \<noteq> Panics) \<and> outCloses s' = 0 \<longrightarrow>
         (\<exists>t s1. GoReduceLinesFromReader_step numWorkers reduceLine t s' = Some s1))"
    if run: "GoReduceLinesFromReader r numWorkers reduceLine schedule' = Some s'"
  proof -
    from run have inv: "engine_inv numWorkers reduceLine (lines_of r) s'"
      by (rule GoReduceLinesFromReader_inv)
    have "\<exists>t s1. GoReduceLinesFromReader_step numWorkers reduceLine t s' = Some s1"
      if w: "1 \<le> numWorkers" and np: "\<forall>x \<in> set (lines_of r). reduceLine x \<noteq> Panics"
        and op: "outCloses s' = 0"
    proof -
      from np run have nc: "\<not> crashed s'" by (rule GoReduceLinesFromReader_no_crash)
      from GoReduceLinesFromReader_progress
        [OF inv GoReduceLinesFromReader_producer_ok [OF run] nc w op]
      show ?thesis .
    qed
    with engine_inv_closed [OF inv]
      GoReduceLinesFromReader_step_steps_left [of numWorkers reduceLine _ s']
    show ?thesis by blast
  qed
  from a b show ?thesis by blast
qed

theorem output_closed_once_after_workers_witness:
  "GoReduce [''a'', ''bb'', ''ccc''] 1 len_if_long
     [Main, Main, Worker 0, Worker 0, Worker 0, Worker 0, Worker 0, Worker 0, Worker 0, Worker 0,
      Caller, Worker 0, Main, Main] =
   Some \<lparr>main = Returned, workers = [Finished], wg = 0, pending = [],
         inClosed = True, outCloses = 1, delivered = [Some 2, Some 3], exited = False\<rparr> \<and>
   GoReduceLinesFromReader ([CHR ''a'', newline, CHR ''b'', CHR ''b'', newline, CHR ''c''], EOF, []) 1
     len_if_long
     [Main, Main, Worker 0, Worker 0, Worker 0, Worker 0, Worker 0, Main, Worker 0, Main, Main] =
   Some \<lparr>main = Returned, workers = [Finished], wg = 0, pending = [],
         inClosed = True, outCloses = 1, delivered = [Some 2], exited = False\<rparr> \<and>
   mset [Some 2, Some 3] = mset (results len_if_long [''a'', ''bb'', ''ccc'']) \<and>
   mset [Some 2] = mset (results len_if_long [''a'', ''bb'']) \<and>
   (\<exists>t s1. GoReduce_step 1 len_if_long t
      \<lparr>main = Waiting, workers = [Reducing ''a''], wg = 1, pending = [''bb'', ''ccc''],
       inClosed = False, outCloses = 0, delivered = [], exited = False\<rparr> = Some s1) \<and>
   (\<exists>t s1. GoReduceLinesFromReader_step 1 len_if_long t
      \<lparr>main = Producing, workers = [Reducing ''a''], wg = 1, pending = [''bb''],
       inClosed = False, outCloses = 0, delivered = [], exited = False\<rparr> = Some s1)"
proof -
  note inst = output_closed_once_after_workers
    [where xs = "[''a'', ''bb'', ''ccc'']" and numWorkers = 1 and reduceFunc = len_if_long
       and r = "([CHR ''a'', newline, CHR ''b'', CHR ''b'', newline, CHR ''c''], EOF, [])"
       and reduceLine = len_if_long]
  from inst [THEN conjunct1, rule_format, OF run_one_worker]
  have a: "mset [Some 2, Some 3] = mset (results len_if_long [''a'', ''bb'', ''ccc''])"
    by (simp add: accepted_def)
  from inst [THEN conjunct2, rule_format, OF run_from_reader]
  have b: "mset [Some 2] = mset (results len_if_long [''a'', ''bb''])"
    by (simp add: accepted_def lines_of_sample)
  from inst [THEN conjunct1, rule_format, OF run_open]
  have c: "\<exists>t s1. GoReduce_step 1 len_if_long t
      \<lparr>main = Waiting, workers = [Reducing ''a''], wg = 1, pending = [''bb'', ''ccc''],
       inClosed = False, outCloses = 0, delivered = [], exited = False\<rparr> = Some s1"
    by (simp add: len_if_long_def)
  from inst [THEN conjunct2, rule_format, OF run_from_reader_open]
  have d: "\<exists>t s1. GoReduceLinesFromReader_step 1 len_if_long t
      \<lparr>main = Producing, workers = [Reducing ''a''], wg = 1, pending = [''bb''],
       inClosed = False, outCloses = 0, delivered = [], exited = False\<rparr> = Some s1"
    by (simp add: len_if_long_def)
  from run_one_worker run_from_reader a b c d show ?thesis by blast
qed

text \<open>
  The claim as stated, that the channel is closed exactly once in every run, fails on two
  runs that end with the channel open and no goroutine able to step:
  \<open>GoReduceLinesFromReader\<close> with no worker and one line, where the producer blocks at its
  first send, and \<open>GoReduce\<close> with one worker and a reducer that panics, where the runtime
  terminates the program before \<open>wg.Wait()\<close> has returned.
\<close>

theorem output_never_closed_counterexample:
  "GoReduceLinesFromReader ([CHR ''a'', newline], EOF, []) 0 len_if_long [Main] =
     Some \<lparr>main = Producing, workers = [], wg = 0, pending = [''a''],
           inClosed = False, outCloses = 0, delivered = [], exited = False\<rparr> \<and>
   (\<forall>t. GoReduceLinesFromReader_step 0 len_if_long t
      \<lparr>main = Producing, workers = [], wg = 0, pending = [''a''],
       inClosed = False, outCloses = 0, delivered = [], exited = False\<rparr> = None) \<and>
   GoReduce [0] 1 always_panics [Main, Main, Worker 0, Worker 0, Runtime] =
     Some \<lparr>main = Waiting, workers = [Panicked], wg = 0, pending = [],
           inClosed = False, outCloses = 0, delivered = [], exited = True\<rparr> \<and>
   (\<forall>t. GoReduce_step 1 always_panics t
      \<lparr>main = Waiting, workers = [Panicked], wg = 0, pending = [],
       inClosed = False, outCloses = 0, delivered = [], exited = True\<rparr> = None)"
proof -
  have 1: "GoReduceLinesFromReader ([CHR ''a'', newline], EOF, []) 0 len_if_long [Main] =
     Some \<lparr>main = Producing, workers = [], wg = 0, pending = [''a''],
           inClosed = False, outCloses = 0, delivered = [], exited = False\<rparr>"
    unfolding GoReduceLinesFromReader_def GoReduceLinesFromReader_init_def lines_of_one
    by (simp add: engine_simps)
  have 2: "GoReduceLinesFromReader_step 0 len_if_long t
      \<lparr>main = Producing, workers = [], wg = 0, pending = [''a''],
       inClosed = False, outCloses = 0, delivered = [], exited = False\<rparr> = None" for t
    by (cases t) (simp_all add: GoReduceLinesFromReader_step_def no_worker_no_step runtime_step_def crashed_def)
  have 3: "GoReduce [0] 1 always_panics [Main, Main, Worker 0, Worker 0, Runtime] =
     Some \<lparr>main = Waiting, workers = [Panicked], wg = 0, pending = [],
           inClosed = False, outCloses = 0, delivered = [], exited = True\<rparr>"
    by (simp add: engine_simps always_panics_def)
  have 4: "GoReduce_step 1 always_panics t
      \<lparr>main = Waiting, workers = [Panicked], wg = 0, pending = [],
       inClosed = False, outCloses = 0, delivered = [], exited = True\<rparr> = None" for t
    by (simp add: GoReduce_step_def)
  from 1 2 3 4 show ?thesis by blast
qed

text \<open>
  Claim C2. For every input and every reducer, in every run of either engine the nil
  result never reaches the consumer: every delivered value is the non-nil result of an
  accepted item, and no more values are delivered than there are accepted items with a
  non-nil result, so an item whose result is nil puts nothing on the output channel.
\<close>

theorem absent_results_never_sent:
  "(GoReduce xs numWorkers reduceFunc schedule = Some s \<longrightarrow>
      None \<notin> set (delivered s) \<and>
      (\<forall>out \<in> set (delivered s). \<exists>x \<in> set (accepted xs s). reduceFunc x = Returns out) \<and>
      length (delivered s) \<le>
        length (filter (\<lambda>x. reduceFunc x \<noteq> Returns None \<and> reduceFunc x \<noteq> Panics) (accepted xs s))) \<and>
   (GoReduceLinesFromReader r numWorkers reduceLine schedule' = Some s' \<longrightarrow>
      None \<notin> set (delivered s') \<and>
      (\<forall>out \<in> set (delivered s'). \<exists>x \<in> set (accepted (lines_of r) s'). reduceLine x = Returns out) \<and>
      length (delivered s') \<le>
        length (filter (\<lambda>x. reduceLine x \<noteq> Returns None \<and> reduceLine x \<noteq> Panics)
                  (accepted (lines_of r) s')))"
  using engine_inv_no_nil [OF GoReduce_inv, of xs numWorkers reduceFunc schedule s]
    engine_inv_no_nil [OF GoReduceLinesFromReader_inv, of r numWorkers reduceLine schedule' s']
  by blast

theorem absent_results_never_sent_witness:
  "GoReduce [''a'', ''bb'', ''ccc''] 1 len_if_long
     [Main, Main, Worker 0, Worker 0, Worker 0, Worker 0, Worker 0, Worker 0, Worker 0, Worker 0,
      Caller, Worker 0, Main, Main] =
   Some \<lparr>main = Returned, workers = [Finished], wg = 0, pending = [],
         inClosed = True, outCloses = 1, delivered = [Some 2, Some 3], exited = False\<rparr> \<and>
   GoReduceLinesFromReader ([CHR ''a'', newline, CHR ''b'', CHR ''b'', newline, CHR ''c''], EOF, []) 1
     len_if_long
     [Main, Main, Worker 0, Worker 0, Worker 0, Worker 0, Worker 0, Main, Worker 0, Main, Main] =
   Some \<lparr>main = Returned, workers = [Finished], wg = 0, pending = [],
         inClosed = True, outCloses = 1, delivered = [Some 2], exited = False\<rparr> \<and>
   None \<notin> set [Some 2, Some (3::nat)] \<and> None \<notin> set [Some (2::nat)]"
proof -
  note inst = absent_results_never_sent
    [where xs = "[''a'', ''bb'', ''ccc'']" and numWorkers = 1 and reduceFunc = len_if_long
       and r = "([CHR ''a'', newline, CHR ''b'', CHR ''b'', newline, CHR ''c''], EOF, [])"
       and reduceLine = len_if_long]
  from inst [THEN conjunct1, rule_format, OF run_one_worker]
  have a: "None \<notin> set [Some 2, Some (3::nat)]" by simp
  from inst [THEN conjunct2, rule_format, OF run_from_reader]
  have b: "None \<notin> set [Some (2::nat)]" by simp
  from run_one_worker run_from_reader a b show ?thesis by blast
qed






text \<open>
  Claim C8. For every worker count \<open>W \<ge> 1\<close>, when the caller closes the input channel
  without sending an item, the output stream of \<open>GoReduce\<close> closes with zero results:
  in every run nothing is delivered, some goroutine can step as long as the output channel
  is not closed, every step lowers \<open>steps_left\<close> (so no run goes on for ever), and once the
  engine's goroutine has returned the channel is closed.
\<close>

theorem empty_input_closes_without_results:
  assumes "1 \<le> numWorkers" and "GoReduce [] numWorkers reduceFunc schedule = Some s"
  shows "delivered s = [] \<and>
         (outCloses s = 0 \<longrightarrow> (\<exists>t s'. GoReduce_step numWorkers reduceFunc t s = Some s')) \<and>
         (\<forall>t s'. GoReduce_step numWorkers reduceFunc t s = Some s' \<longrightarrow>
            steps_left numWorkers s' < steps_left numWorkers s) \<and>
         (main s = Returned \<longrightarrow> outCloses s = 1)"
proof -
  from assms(2) have inv: "engine_inv numWorkers reduceFunc [] s" by (rule GoReduce_inv)
  from assms(2) have idle: "idle s" by (rule GoReduce_empty_idle)
  from assms(2) have np: "main s \<noteq> Producing" by (rule GoReduce_not_Producing)
  from idle have "\<not> crashed s" by (rule idle_not_crashed)
  with inv have nc: "\<not> exited s" by (rule not_crashed_not_exited)
  from inv have "results_ok reduceFunc [] s" by (simp add: engine_inv_def)
  with idle have "delivered s = []" by (rule idle_no_output)
  moreover have "outCloses s = 0 \<longrightarrow> (\<exists>t s'. GoReduce_step numWorkers reduceFunc t s = Some s')"
    using GoReduce_progress [OF inv nc _ np] by blast
  moreover have "\<forall>t s'. GoReduce_step numWorkers reduceFunc t s = Some s' \<longrightarrow>
            steps_left numWorkers s' < steps_left numWorkers s"
    using GoReduce_step_steps_left by blast
  moreover from inv have "main s = Returned \<longrightarrow> outCloses s = 1"
    by (simp add: engine_inv_def closing_ok_def)
  ultimately show ?thesis by blast
qed

theorem empty_input_closes_without_results_witness:
  "GoReduce ([] :: string list) 2 len_if_long [Caller, Main, Main, Worker 0, Main] =
   Some \<lparr>main = Waiting, workers = [Finished, Receiving], wg = 1, pending = [],
         inClosed = True, outCloses = 0, delivered = [], exited = False\<rparr> \<and>
   (\<exists>t s'. GoReduce_step 2 len_if_long t
      \<lparr>main = Waiting, workers = [Finished, Receiving], wg = 1, pending = [],
       inClosed = True, outCloses = 0, delivered = [], exited = False\<rparr> = Some s')"
proof -
  from empty_input_closes_without_results [OF _ run_empty]
  have "\<exists>t s'. GoReduce_step 2 len_if_long t
      \<lparr>main = Waiting, workers = [Finished, Receiving], wg = 1, pending = [],
       inClosed = True, outCloses = 0, delivered = [], exited = False\<rparr> = Some s'"
    by simp
  with run_empty show ?thesis by blast
qed

section \<open>Properties of package format\<close>

text \<open>
  What the three loops of \<open>Source\<close> compute: the leading space of the source splits into
  the lines before the first line with code and the indentation of that line; the
  indentation counts its tabs, or is one if it has a space and no tab; the trailing space
  is the longest suffix of space bytes.
\<close>

lemma leading_space_split:
  "leading_space bs i j = (i', j') \<Longrightarrow>
   \<exists>lead ind. takeWhile isSpace bs = lead @ ind \<and> newline \<notin> set ind \<and>
     j' = j + length (lead @ ind) \<and>
     (if lead = [] then i' = i else last lead = newline \<and> i' = j + length lead)"
proof (induction bs arbitrary: i j)
  case Nil
  then show ?case by simp
next
  case (Cons b bs)
  show ?case
  proof (cases "isSpace b")
    case False
    with Cons.prems show ?thesis by simp
  next
    case True
    with Cons.prems
    have "leading_space bs (if b = newline then j + 1 else i) (j + 1) = (i', j')" by simp
    from Cons.IH [OF this] obtain lead ind where
      tw: "takeWhile isSpace bs = lead @ ind" and nl: "newline \<notin> set ind"
      and j': "j' = j + 1 + length (lead @ ind)"
      and i': "if lead = [] then i' = (if b = newline then j + 1 else i)
               else last lead = newline \<and> i' = j + 1 + length lead"
      by auto
    show ?thesis
    proof (cases "lead = [] \<and> b \<noteq> newline")
      case True
      with tw nl j' i' \<open>isSpace b\<close> show ?thesis
        by (intro exI [of _ "[]"] exI [of _ "b # ind"]) auto
    next
      case False
      with tw nl j' i' \<open>isSpace b\<close> show ?thesis
        by (intro exI [of _ "b # lead"] exI [of _ ind]) (auto split: if_splits)
    qed
  qed
qed

lemma space_not_tab: "space \<noteq> tab"
  by (simp add: space_def tab_def)

lemma fold_indent:
  "fold (\<lambda>b (indent, hasSpace).
            if b = space then (indent, True)
            else if b = tab then (indent + 1, hasSpace)
            else (indent, hasSpace)) bs (n, h) =
   (n + count_list bs tab, h \<or> space \<in> set bs)"
  by (induction bs arbitrary: n h) (auto simp: space_not_tab)

lemma count_indent_eq:
  "count_indent bs = (if tab \<in> set bs then count_list bs tab else if space \<in> set bs then 1 else 0)"
  by (auto simp: count_indent_def fold_indent count_list_0_iff)

lemma trailing_space_eq:
  "n \<le> length src \<Longrightarrow>
   trailing_space src n = n - length (takeWhile isSpace (rev (take n src)))"
proof (induction n)
  case 0
  then show ?case by simp
next
  case (Suc n)
  then have "take (Suc n) src = take n src @ [src ! n]"
    by (simp add: take_Suc_conv_app_nth)
  with Suc show ?case by simp
qed

lemma drop_trailing_space:
  "drop (trailing_space src (length src)) src = rev (takeWhile isSpace (rev src))"
proof -
  let ?L = "length (takeWhile isSpace (rev src))"
  have "trailing_space src (length src) = length src - ?L"
    using trailing_space_eq [of "length src" src] by simp
  moreover have "takeWhile isSpace (rev src) = take ?L (rev src)"
    by (rule takeWhile_eq_take)
  then have "rev (takeWhile isSpace (rev src)) = drop (length src - ?L) src"
    by (metis rev_rev_ident rev_take length_rev)
  ultimately show ?thesis by simp
qed

text \<open>
  \<open>parse\<close> returns one of its two closures, both of which end in \<open>TrimSpace\<close>, and never
  looks at the import sorter. On a partial source file \<open>Source\<close> is the print of the file
  between the leading and the trailing space.
\<close>

lemma parse_partial:
  assumes "parse lib src stdin = Inr (file, Some adjust, adjustIndent)"
  shows "(adjust = adjust_decls lib \<and> adjustIndent = 0) \<or>
         (adjust = adjust_stmts lib \<and> adjustIndent = - 1)"
  using assms by (auto simp: parse_def split: sum.splits if_splits)

lemma adjust_trims:
  assumes "adjust = adjust_decls lib \<or> adjust = adjust_stmts lib"
    and "adjust buf n = Some body"
  shows "\<exists>b. body = TrimSpace lib b"
  using assms by (auto simp: adjust_decls_def adjust_stmts_def Let_def split: if_splits)

lemma parse_SortImports [simp]:
  "parse (lib\<lparr>SortImports := sorter\<rparr>) src stdin = parse lib src stdin"
proof -
  have "adjust_decls (lib\<lparr>SortImports := sorter\<rparr>) = adjust_decls lib"
    by (intro ext) (simp add: adjust_decls_def)
  moreover have "adjust_stmts (lib\<lparr>SortImports := sorter\<rparr>) = adjust_stmts lib"
    by (intro ext) (simp add: adjust_stmts_def Let_def)
  ultimately show ?thesis by (simp add: parse_def cong: sum.case_cong if_cong)
qed

lemma Source_partial_unfold:
  assumes p: "parse lib src True = Inr (file, Some adjust, adjustIndent)"
  shows "\<exists>lead ind.
      takeWhile isSpace src = lead @ ind \<and> (lead = [] \<or> last lead = newline) \<and> newline \<notin> set ind \<and>
      (\<forall>sorter. Source (lib\<lparr>SortImports := sorter\<rparr>) src =
         (case Fprint lib (int (count_indent ind) + adjustIndent) (PFile file) of
            Inl err \<Rightarrow> Some (Inl err)
          | Inr buf \<Rightarrow>
              (case adjust buf (int (count_indent ind) + adjustIndent) of
                 None \<Rightarrow> None
               | Some body \<Rightarrow>
                   Some (Inr (lead @ replicate (count_indent ind) tab @ body @
                              rev (takeWhile isSpace (rev src)))))))"
proof -
  obtain i j where ij: "leading_space src 0 0 = (i, j)" by (cases "leading_space src 0 0")
  from leading_space_split [OF ij] obtain lead ind where
    tw: "takeWhile isSpace src = lead @ ind" and nl: "newline \<notin> set ind"
    and j: "j = length (lead @ ind)"
    and i: "if lead = [] then i = 0 else last lead = newline \<and> i = length lead"
    by auto
  from i have il: "i = length lead" and ll: "lead = [] \<or> last lead = newline"
    by (auto split: if_splits)
  have src: "src = lead @ ind @ dropWhile isSpace src"
    using takeWhile_dropWhile_id [of isSpace src] tw by simp
  have t1: "take i src = lead" by (subst src) (simp add: il)
  have t2: "take (j - i) (drop i src) = ind" by (subst src) (simp add: il j)
  have "Source (lib\<lparr>SortImports := sorter\<rparr>) src =
         (case Fprint lib (int (count_indent ind) + adjustIndent) (PFile file) of
            Inl err \<Rightarrow> Some (Inl err)
          | Inr buf \<Rightarrow>
              (case adjust buf (int (count_indent ind) + adjustIndent) of
                 None \<Rightarrow> None
               | Some body \<Rightarrow>
                   Some (Inr (lead @ replicate (count_indent ind) tab @ body @
                              rev (takeWhile isSpace (rev src))))))" for sorter
    by (simp add: Source_def p ij t1 t2 drop_trailing_space Let_def cong: sum.case_cong option.case_cong)
  with tw ll nl show ?thesis by blast
qed

lemma lib_SortImports_id: "lib\<lparr>SortImports := SortImports lib\<rparr> = (lib :: 'x library)"
  by simp

lemma takeWhile_all_then:
  assumes "\<forall>x \<in> set xs. P x" and "ys = [] \<or> \<not> P (hd ys)"
  shows "takeWhile P (xs @ ys) = xs"
  using assms by (cases ys) (simp_all add: takeWhile_append2)

lemma isSpace_tab: "isSpace tab"
  by (simp add: isSpace_def)

text \<open>The sample library on concrete sources.\<close>

lemmas sample_simps = sample_library_def sample_ParseFile_def sample_Fprint_def
  sample_SortImports_def sample_file_def print_file_def ascii_trim_def isSpace_def
  space_def tab_def newline_def carriage_return_def expected_package_def

lemma ascii_trim_trimmed:
  "ascii_trim b = [] \<or> (\<not> isSpace (hd (ascii_trim b)) \<and> \<not> isSpace (last (ascii_trim b)))"
proof (cases "ascii_trim b = []")
  case True
  then show ?thesis by simp
next
  case False
  let ?y = "rev (dropWhile isSpace (rev b))"
  have t: "ascii_trim b = dropWhile isSpace ?y" by (simp add: ascii_trim_def)
  from False t have h: "\<not> isSpace (hd (ascii_trim b))" by (metis hd_dropWhile)
  from False t have yne: "?y \<noteq> []" by (metis dropWhile.simps(1))
  then have "\<not> isSpace (last ?y)" by (simp add: last_rev hd_dropWhile)
  moreover from False t have "last (ascii_trim b) = last ?y"
    by (metis append_self_conv2 last_appendR takeWhile_dropWhile_id)
  ultimately show ?thesis using h by simp
qed

lemma parse_sample_fragment:
  "parse sample_library ([newline, tab] @ ''var x int'' @ [space, newline]) True =
   Inr (sample_file ''var x int'', Some (adjust_decls sample_library), 0)"
  by (simp add: parse_def sample_simps)

lemma Source_sample_fragment:
  "Source sample_library ([newline, tab] @ ''var x int'' @ [space, newline]) =
   Some (Inr ([newline, tab] @ ''var x int'' @ [space, newline]))"
  by (simp add: Source_def parse_def adjust_decls_def count_indent_def sample_simps)

text \<open>
  A source of space bytes alone is a declaration list with no declaration. Its leading
  space and its trailing space are the same bytes and both are written, around an empty
  body: a single newline comes back as two.
\<close>

lemma Source_only_space:
  "Source sample_library [newline] = Some (Inr [newline, newline])"
  by (simp add: Source_def parse_def adjust_decls_def count_indent_def sample_simps)

lemma deref_append:
  "file_of store node = Some (a, cnode) \<Longrightarrow> deref (store @ extra) node = deref store node"
  by (auto simp: file_of_def nth_append split: node.splits if_splits)

text \<open>
  Claim C9, as amended. For every partial source file accepted by \<open>Source\<close> (a declaration
  list or a statement list) the returned bytes are, in this order: the leading space of
  the input up to and including its last newline; one tab for every tab in the
  indentation of the first line with code, or one tab if that indentation has spaces and no
  tab; the body, printed with that indentation (one level less for a statement list, which
  is printed inside a function body) and trimmed; the trailing space of the input. So when
  the body is not empty the result has the trailing space of the input, and its leading
  space is that of the input with the indentation of the first code line turned into tabs.
  The import sorter is not used: the result is the same for every sorter. The library's
  \<open>TrimSpace\<close> returns nothing that starts or ends with a space byte.
\<close>

theorem Source_partial:
  assumes p: "parse lib src True = Inr (file, Some adjust, adjustIndent)"
    and r: "Source lib src = Some (Inr res)"
    and trim: "\<forall>b. TrimSpace lib b = [] \<or>
                 (\<not> isSpace (hd (TrimSpace lib b)) \<and> \<not> isSpace (last (TrimSpace lib b)))"
  shows "\<exists>lead ind buf body.
      takeWhile isSpace src = lead @ ind \<and> (lead = [] \<or> last lead = newline) \<and> newline \<notin> set ind \<and>
      Fprint lib (int (count_indent ind) + adjustIndent) (PFile file) = Inr buf \<and>
      adjust buf (int (count_indent ind) + adjustIndent) = Some body \<and>
      res = lead @ replicate (count_indent ind) tab @ body @ rev (takeWhile isSpace (rev src)) \<and>
      count_indent ind =
        (if tab \<in> set ind then count_list ind tab else if space \<in> set ind then 1 else 0) \<and>
      (body \<noteq> [] \<longrightarrow>
         takeWhile isSpace res = lead @ replicate (count_indent ind) tab \<and>
         rev (takeWhile isSpace (rev res)) = rev (takeWhile isSpace (rev src))) \<and>
      Source (lib\<lparr>SortImports := sorter\<rparr>) src = Some (Inr res)"
proof -
  from Source_partial_unfold [OF p] obtain lead ind where
    tw: "takeWhile isSpace src = lead @ ind" and ll: "lead = [] \<or> last lead = newline"
    and nl: "newline \<notin> set ind"
    and S: "\<And>sorter. Source (lib\<lparr>SortImports := sorter\<rparr>) src =
         (case Fprint lib (int (count_indent ind) + adjustIndent) (PFile file) of
            Inl err \<Rightarrow> Some (Inl err)
          | Inr buf \<Rightarrow>
              (case adjust buf (int (count_indent ind) + adjustIndent) of
                 None \<Rightarrow> None
               | Some body \<Rightarrow>
                   Some (Inr (lead @ replicate (count_indent ind) tab @ body @
                              rev (takeWhile isSpace (rev src))))))"
    by blast
  let ?n = "count_indent ind"
  let ?trail = "rev (takeWhile isSpace (rev src))"
  from S [of "SortImports lib"] r obtain buf body where
    f: "Fprint lib (int ?n + adjustIndent) (PFile file) = Inr buf"
    and a: "adjust buf (int ?n + adjustIndent) = Some body"
    and res: "res = lead @ replicate ?n tab @ body @ ?trail"
    by (auto simp: lib_SortImports_id split: sum.splits option.splits)
  from S [of sorter] f a res have s: "Source (lib\<lparr>SortImports := sorter\<rparr>) src = Some (Inr res)"
    by simp
  from parse_partial [OF p] have "adjust = adjust_decls lib \<or> adjust = adjust_stmts lib" by blast
  from adjust_trims [OF this a] obtain b where b: "body = TrimSpace lib b" by blast
  have lead_sp: "\<forall>x \<in> set (lead @ replicate ?n tab). isSpace x"
  proof -
    have "\<forall>x \<in> set (takeWhile isSpace src). isSpace x" by (auto dest: set_takeWhileD)
    with tw show ?thesis by (auto simp: isSpace_tab)
  qed
  have trail_sp: "\<forall>x \<in> set (takeWhile isSpace (rev src)). isSpace x"
    by (auto dest: set_takeWhileD)
  have ws: "takeWhile isSpace res = lead @ replicate ?n tab \<and>
         rev (takeWhile isSpace (rev res)) = ?trail" if ne: "body \<noteq> []"
  proof -
    from ne b trim have h: "\<not> isSpace (hd body)" and l: "\<not> isSpace (last body)" by auto
    have "res = (lead @ replicate ?n tab) @ (body @ ?trail)" by (simp add: res)
    moreover from ne h have "body @ ?trail = [] \<or> \<not> isSpace (hd (body @ ?trail))" by simp
    ultimately have 1: "takeWhile isSpace res = lead @ replicate ?n tab"
      using takeWhile_all_then [OF lead_sp] by metis
    have "rev res = takeWhile isSpace (rev src) @ (rev body @ rev (lead @ replicate ?n tab))"
      by (simp add: res)
    moreover from ne l have "rev body @ rev (lead @ replicate ?n tab) = [] \<or>
        \<not> isSpace (hd (rev body @ rev (lead @ replicate ?n tab)))"
      by (simp add: hd_rev)
    ultimately have "takeWhile isSpace (rev res) = takeWhile isSpace (rev src)"
      using takeWhile_all_then [OF trail_sp] by metis
    with 1 show ?thesis by simp
  qed
  from tw ll nl f a res ws s count_indent_eq [of ind] show ?thesis by blast
qed

theorem Source_partial_witness:
  "parse sample_library ([newline, tab] @ ''var x int'' @ [space, newline]) True =
     Inr (sample_file ''var x int'', Some (adjust_decls sample_library), 0) \<and>
   Source sample_library ([newline, tab] @ ''var x int'' @ [space, newline]) =
     Some (Inr ([newline, tab] @ ''var x int'' @ [space, newline])) \<and>
   Source (sample_library\<lparr>SortImports := id\<rparr>) ([newline, tab] @ ''var x int'' @ [space, newline]) =
     Some (Inr ([newline, tab] @ ''var x int'' @ [space, newline]))"
proof -
  have trim: "\<forall>b. TrimSpace sample_library b = [] \<or>
      (\<not> isSpace (hd (TrimSpace sample_library b)) \<and> \<not> isSpace (last (TrimSpace sample_library b)))"
    using ascii_trim_trimmed by (simp add: sample_library_def)
  from Source_partial [OF parse_sample_fragment Source_sample_fragment trim, of id]
  have "Source (sample_library\<lparr>SortImports := id\<rparr>) ([newline, tab] @ ''var x int'' @ [space, newline]) =
     Some (Inr ([newline, tab] @ ''var x int'' @ [space, newline]))"
    by blast
  with parse_sample_fragment Source_sample_fragment show ?thesis by blast
qed

text \<open>
  The claim as stated, that the returned bytes carry the leading space of the input, fails
  on a declaration indented by one space: the result is indented by one tab.
\<close>

theorem Source_leading_space_counterexample:
  "parse sample_library (space # ''var x int'') True =
     Inr (sample_file ''var x int'', Some (adjust_decls sample_library), 0) \<and>
   Source sample_library (space # ''var x int'') = Some (Inr (tab # ''var x int'')) \<and>
   takeWhile isSpace (tab # ''var x int'') \<noteq> takeWhile isSpace (space # ''var x int'')"
  by (simp add: Source_def parse_def adjust_decls_def count_indent_def sample_simps)

text \<open>
  Claim C10. \<open>Node\<close> does not modify the node it is given: every file of the caller's
  store is left as it was, and so is the node as the printer sees it. When the imports of
  the file may be unsorted the store grows by one file, the parse of the print of the
  caller's file, and it is this copy that the import sorter changes.
\<close>

theorem Node_does_not_modify_node:
  assumes "Node lib store node = (store', out)"
  shows "take (length store) store' = store \<and> deref store' node = deref store node \<and>
         (store' = store \<or>
          (\<exists>a cnode buf file.
             file_of store node = Some (a, cnode) \<and> hasUnsortedImports (store ! a) \<and>
             Fprint lib 0 (PFile (store ! a)) = Inr buf \<and> ParseFile lib buf = Inr file \<and>
             store' = store @ [SortImports lib file]))"
proof (cases "store' = store")
  case True
  then show ?thesis by simp
next
  case False
  with assms obtain a cnode buf copy where
    f: "file_of store node = Some (a, cnode)" and u: "hasUnsortedImports (store ! a)"
    and p: "Fprint lib 0 (PFile (store ! a)) = Inr buf" and q: "ParseFile lib buf = Inr copy"
    and s: "store' = (store @ [copy])[length store := SortImports lib ((store @ [copy]) ! length store)]"
    by (auto simp: Node_def Let_def split: option.splits if_splits sum.splits prod.splits)
  from s have s': "store' = store @ [SortImports lib copy]" by simp
  from deref_append [OF f] have "deref store' node = deref store node" by (simp add: s')
  with s' f u p q show ?thesis by auto
qed

theorem Node_does_not_modify_node_witness:
  "Node sample_library [sample_file ''import (b; a)''] (FileNode 0) =
     ([sample_file ''import (b; a)'', sample_file ''import (a; b)''],
      Inr (''package p'' @ [newline, newline] @ ''import (a; b)'' @ [newline])) \<and>
   take (length [sample_file ''import (b; a)''])
     [sample_file ''import (b; a)'', sample_file ''import (a; b)''] = [sample_file ''import (b; a)'']"
proof -
  have n: "Node sample_library [sample_file ''import (b; a)''] (FileNode 0) =
     ([sample_file ''import (b; a)'', sample_file ''import (a; b)''],
      Inr (''package p'' @ [newline, newline] @ ''import (a; b)'' @ [newline]))"
    by (simp add: Node_def file_of_def hasUnsortedImports_def sample_simps)
  from Node_does_not_modify_node [OF n]
  have "take (length [sample_file ''import (b; a)''])
     [sample_file ''import (b; a)'', sample_file ''import (a; b)''] = [sample_file ''import (b; a)'']"
    by (rule conjunct1)
  with n show ?thesis by (rule conjI)
qed

end
